theory Spec2Isabelle
  imports Main
begin

section \<open>Values received from the wire\<close>

text \<open>
  The component tree handed to \<^verbatim>\<open>assertIsComponent\<close> is a deserialised JSON value: a finite
  tree of null, booleans, numbers, strings, arrays and objects. An object is the list of its
  own properties; a property read takes the first entry of that name. A character stands for
  one code unit of a JavaScript string, of the 256 lowest, so \<open>length\<close> is the
  \<^verbatim>\<open>.length\<close> of the source.

  The program asks a number for three things only: its type, its truthiness, and the string
  that \<^verbatim>\<open>String\<close> and a template literal give for it. That string tells the numbers of a
  JSON text apart (\<^verbatim>\<open>0\<close> and \<^verbatim>\<open>-0\<close> alone share one, and the program cannot tell them
  apart either), so a number is kept as this string: \<^verbatim>\<open>5\<close> as \<open>''5''\<close>, \<^verbatim>\<open>0.5\<close> as
  \<open>''0.5''\<close>, \<^verbatim>\<open>1e21\<close> as \<open>''1e+21''\<close>. Zero, the one falsy number a JSON text can
  denote, is \<open>''0''\<close>.
\<close>

datatype jv =
    JNull
  | JBool bool
  | JNum string
  | JStr string
  | JArr "jv list"
  | JObj "(string \<times> jv) list"

text \<open>\<^verbatim>\<open>k in v\<close> and \<^verbatim>\<open>v.k\<close> for the property names the program uses; none of them is
  inherited by an array or by a plain object, so only own properties of objects count.
  \<open>None\<close> is \<^verbatim>\<open>undefined\<close>.\<close>

fun get :: "jv \<Rightarrow> string \<Rightarrow> jv option" where
  "get (JObj kvs) k = map_of kvs k"
| "get _ k = None"

definition has :: "jv \<Rightarrow> string \<Rightarrow> bool" where
  "has v k = (get v k \<noteq> None)"

text \<open>\<^verbatim>\<open>typeof v\<close> of a present value.\<close>

fun typeof :: "jv \<Rightarrow> string" where
  "typeof JNull = ''object''"
| "typeof (JBool b) = ''boolean''"
| "typeof (JNum n) = ''number''"
| "typeof (JStr s) = ''string''"
| "typeof (JArr xs) = ''object''"
| "typeof (JObj kvs) = ''object''"

text \<open>\<^verbatim>\<open>typeof v\<close> of a property read, which may be \<^verbatim>\<open>undefined\<close>.\<close>

definition typeofProp :: "jv option \<Rightarrow> string" where
  "typeofProp p = (case p of None \<Rightarrow> ''undefined'' | Some v \<Rightarrow> typeof v)"

text \<open>JavaScript truthiness.\<close>

fun truthy :: "jv \<Rightarrow> bool" where
  "truthy JNull = False"
| "truthy (JBool b) = b"
| "truthy (JNum n) = (n \<noteq> ''0'')"
| "truthy (JStr s) = (s \<noteq> [])"
| "truthy (JArr xs) = True"
| "truthy (JObj kvs) = True"

definition truthyProp :: "jv option \<Rightarrow> bool" where
  "truthyProp p = (case p of None \<Rightarrow> False | Some v \<Rightarrow> truthy v)"

subsection \<open>Indices as text\<close>

text \<open>
  The numbers the program itself prints are indices: of an entry of an array in a path, and
  of a placeholder in a warning. \<open>showInt\<close> gives the decimal digits of an integer, which is
  what JavaScript prints for every integer of magnitude up to \<open>2\<^sup>5\<^sup>3\<close>.
\<close>

definition digitChar :: "nat \<Rightarrow> char" where
  "digitChar d = ''0123456789'' ! d"

fun showNat :: "nat \<Rightarrow> string" where
  "showNat n = (if n < 10 then [digitChar n] else showNat (n div 10) @ [digitChar (n mod 10)])"

declare showNat.simps [simp del]

definition showInt :: "int \<Rightarrow> string" where
  "showInt i = (if i < 0 then CHR ''-'' # showNat (nat (- i)) else showNat (nat i))"

section \<open>Validation\<close>

definition MAX_CHAT_LENGTH :: nat where
  "MAX_CHAT_LENGTH = 4096"

definition MAX_CHAT_DEPTH :: nat where
  "MAX_CHAT_DEPTH = 8"

definition VALID_COLORS :: "string list" where
  "VALID_COLORS =
    [''black'', ''dark_blue'', ''dark_green'', ''dark_aqua'', ''dark_red'', ''dark_purple'',
     ''gold'', ''gray'', ''dark_gray'', ''blue'', ''green'', ''aqua'', ''red'',
     ''light_purple'', ''yellow'', ''white'', ''reset'']"

definition VALID_HOVER_EVENTS :: "string list" where
  "VALID_HOVER_EVENTS = [''show_text'', ''show_item'', ''show_entity'']"

text \<open>The exception class of the validator: a message and the path to the offending node.\<close>

datatype ComponentError = ComponentError (error_message: string) (error_path: "string list")

definition depthMessage :: string where
  "depthMessage = ''Maximum chat depth exceeded''"

lemma get_size [termination_simp]: "get c k = Some v \<Longrightarrow> size v < size c"
proof (cases c)
  case (JObj kvs)
  assume g: "get c k = Some v"
  have "map_of kvs k = Some v \<Longrightarrow> size v < Suc (size_list (size_prod (\<lambda>_. 0) size) kvs)"
    by (induction kvs) (auto split: if_splits)
  with g JObj show ?thesis by simp
qed auto

text \<open>\<^verbatim>\<open>assertIsShowItemHoverEvent\<close>: called once \<^verbatim>\<open>action\<close> is known to be \<^verbatim>\<open>show_item\<close>.\<close>

definition assertIsShowItemHoverEvent :: "jv \<Rightarrow> string list \<Rightarrow> ComponentError + unit" where
  "assertIsShowItemHoverEvent hoverEvent path =
    (if \<not> has hoverEvent ''contents'' \<and> \<not> has hoverEvent ''value'' then
       Inl (ComponentError ''HoverEvent does not have a contents or value property'' path)
     else if has hoverEvent ''value'' then
       (if typeofProp (get hoverEvent ''value'') \<noteq> ''string'' then
          Inl (ComponentError ''HoverEvent.value is not a string'' (path @ [''value'']))
        else Inr ())
     else case get hoverEvent ''contents'' of
       None \<Rightarrow> Inl (ComponentError ''HoverEvent.contents is not an object'' (path @ [''contents'']))
     | Some contents \<Rightarrow>
       if typeof contents \<noteq> ''object'' \<or> contents = JNull then
         Inl (ComponentError ''HoverEvent.contents is not an object'' (path @ [''contents'']))
       else if \<not> has contents ''id'' then
         Inl (ComponentError ''HoverEvent.contents.id is not present'' (path @ [''contents'', ''id'']))
       else if typeofProp (get contents ''id'') \<noteq> ''string'' then
         Inl (ComponentError ''HoverEvent.contents.id is not a string'' (path @ [''contents'', ''id'']))
       else if has contents ''count'' \<and> typeofProp (get contents ''count'') \<noteq> ''number'' then
         Inl (ComponentError ''HoverEvent.contents.count is not a number''
                (path @ [''contents'', ''count'']))
       else if has contents ''tag'' \<and> typeofProp (get contents ''tag'') \<noteq> ''string'' then
         Inl (ComponentError ''HoverEvent.contents.tag is not a string''
                (path @ [''contents'', ''tag'']))
       else Inr ())"

text \<open>\<^verbatim>\<open>assertIsShowEntityHoverEvent\<close>.\<close>

definition assertIsShowEntityHoverEvent :: "jv \<Rightarrow> string list \<Rightarrow> ComponentError + unit" where
  "assertIsShowEntityHoverEvent hoverEvent path =
    (if \<not> has hoverEvent ''contents'' \<and> \<not> has hoverEvent ''value'' then
       Inl (ComponentError ''HoverEvent does not have a contents or value property'' path)
     else if has hoverEvent ''value'' then
       (if typeofProp (get hoverEvent ''value'') \<noteq> ''string'' then
          Inl (ComponentError ''HoverEvent.value is not a string'' (path @ [''value'']))
        else Inr ())
     else case get hoverEvent ''contents'' of
       None \<Rightarrow> Inl (ComponentError ''HoverEvent.contents is not an object'' (path @ [''contents'']))
     | Some contents \<Rightarrow>
       if typeof contents \<noteq> ''object'' \<or> contents = JNull then
         Inl (ComponentError ''HoverEvent.contents is not an object'' (path @ [''contents'']))
       else if \<not> has contents ''type'' then
         Inl (ComponentError ''HoverEvent.contents.type is not present''
                (path @ [''contents'', ''type'']))
       else if typeofProp (get contents ''type'') \<noteq> ''string'' then
         Inl (ComponentError ''HoverEvent.contents.type is not a string''
                (path @ [''contents'', ''type'']))
       else if \<not> has contents ''id'' then
         Inl (ComponentError ''HoverEvent.contents.id is not present'' (path @ [''contents'', ''id'']))
       else if has contents ''name'' \<and> typeofProp (get contents ''name'') \<noteq> ''string'' then
         Inl (ComponentError ''HoverEvent.contents.name is not a string''
                (path @ [''contents'', ''name'']))
       else Inr ())"

text \<open>Statements in sequence: the second runs only when the first did not throw.\<close>

definition andThen :: "'e + unit \<Rightarrow> 'e + unit \<Rightarrow> 'e + unit" where
  "andThen r k = (case r of Inl e \<Rightarrow> Inl e | Inr u \<Rightarrow> k)"

text \<open>The checks of \<^verbatim>\<open>assertIsComponent\<close> between the object test and the walk over
  \<^verbatim>\<open>extra\<close>, in the order of the source.\<close>

definition assertOwnFields :: "jv \<Rightarrow> string list \<Rightarrow> ComponentError + unit" where
  "assertOwnFields component path =
    (if \<not> has component ''text'' \<and> \<not> has component ''translate''
        \<and> \<not> has component ''extra'' then
       Inl (ComponentError ''Component does not have a text, translate, or extra property'' path)
     else if has component ''text'' \<and> typeofProp (get component ''text'') \<noteq> ''string'' then
       Inl (ComponentError ''Component.text is not a string'' (path @ [''text'']))
     else if has component ''translate''
             \<and> typeofProp (get component ''translate'') \<noteq> ''string'' then
       Inl (ComponentError ''Component.translate is not a string'' (path @ [''translate'']))
     else if has component ''color'' \<and> typeofProp (get component ''color'') \<noteq> ''string'' then
       Inl (ComponentError ''Component.color is not a string'' (path @ [''color'']))
     else if has component ''bold'' \<and> typeofProp (get component ''bold'') \<noteq> ''boolean'' then
       Inl (ComponentError ''Component.bold is not a boolean'' (path @ [''bold'']))
     else if has component ''italic'' \<and> typeofProp (get component ''italic'') \<noteq> ''boolean'' then
       Inl (ComponentError ''Component.italic is not a boolean'' (path @ [''italic'']))
     else if has component ''underlined''
             \<and> typeofProp (get component ''underlined'') \<noteq> ''boolean'' then
       Inl (ComponentError ''Component.underlined is not a boolean'' (path @ [''underlined'']))
     else if has component ''strikethrough''
             \<and> typeofProp (get component ''strikethrough'') \<noteq> ''boolean'' then
       Inl (ComponentError ''Component.strikethrough is not a boolean''
              (path @ [''strikethrough'']))
     else if has component ''obfuscated''
             \<and> typeofProp (get component ''obfuscated'') \<noteq> ''boolean'' then
       Inl (ComponentError ''Component.obfuscated is not a boolean'' (path @ [''obfuscated'']))
     else Inr ())"

text \<open>
  \<^verbatim>\<open>assertIsComponent\<close> with the validators nested in it. \<open>assertEach xs pre i\<close> is the
  \<^verbatim>\<open>forEach\<close> over the entries from index \<open>i\<close> on: strings are skipped, every other entry is
  validated at \<open>pre\<close> extended by its index. A \<^verbatim>\<open>throw\<close> is the result \<open>Inl\<close>. In
  \<^verbatim>\<open>assertIsShowTextHoverEvent\<close> the contents cannot be \<^verbatim>\<open>undefined\<close> once one of the two
  properties is present; the case is written out as the call \<^verbatim>\<open>assertIsComponent(undefined,
  ...)\<close> would end.
\<close>

function assertIsComponent :: "jv \<Rightarrow> string list \<Rightarrow> ComponentError + unit"
  and assertEach :: "jv list \<Rightarrow> string list \<Rightarrow> nat \<Rightarrow> ComponentError + unit"
  and assertIsHoverEvent :: "jv option \<Rightarrow> string list \<Rightarrow> ComponentError + unit"
  and assertIsShowTextHoverEvent :: "jv \<Rightarrow> string list \<Rightarrow> ComponentError + unit"
where
  "assertIsComponent component path =
    (if length path > MAX_CHAT_DEPTH then Inl (ComponentError depthMessage path)
     else if \<not> truthy component \<or> typeof component \<noteq> ''object'' then
       Inl (ComponentError ''Component is not an object'' path)
     else
       andThen (assertOwnFields component path)
      (andThen (case get component ''extra'' of
                  None \<Rightarrow> Inr ()
                | Some (JArr xs) \<Rightarrow> assertEach xs (path @ [''extra'']) 0
                | Some other \<Rightarrow>
                    Inl (ComponentError ''Component.extra is not an array'' (path @ [''extra''])))
      (andThen (case get component ''with'' of
                  None \<Rightarrow> Inr ()
                | Some (JArr xs) \<Rightarrow> assertEach xs (path @ [''with'']) 0
                | Some other \<Rightarrow>
                    Inl (ComponentError ''Component.with is not an array'' (path @ [''with''])))
               (if has component ''hoverEvent''
                then assertIsHoverEvent (get component ''hoverEvent'') (path @ [''hoverEvent''])
                else Inr ()))))"
| "assertEach [] pre i = Inr ()"
| "assertEach (component # rest) pre i =
    (if typeof component = ''string'' then assertEach rest pre (Suc i)
     else andThen (assertIsComponent component (pre @ [showNat i]))
                  (assertEach rest pre (Suc i)))"
| "assertIsHoverEvent None path = Inl (ComponentError ''HoverEvent is not an object'' path)"
| "assertIsHoverEvent (Some hoverEvent) path =
    (if \<not> truthy hoverEvent \<or> typeof hoverEvent \<noteq> ''object'' then
       Inl (ComponentError ''HoverEvent is not an object'' path)
     else case get hoverEvent ''action'' of
       None \<Rightarrow> Inl (ComponentError ''HoverEvent.action is not present'' path)
     | Some (JStr action) \<Rightarrow>
         if action \<notin> set VALID_HOVER_EVENTS then
           Inl (ComponentError (''HoverEvent.action is not a valid hover event: '' @ action)
                  (path @ [''action'']))
         else if action = ''show_text'' then assertIsShowTextHoverEvent hoverEvent path
         else if action = ''show_item'' then assertIsShowItemHoverEvent hoverEvent path
         else if action = ''show_entity'' then assertIsShowEntityHoverEvent hoverEvent path
         else Inr ()
     | Some other \<Rightarrow>
         Inl (ComponentError ''HoverEvent.action is not a string'' (path @ [''action''])))"
| "assertIsShowTextHoverEvent hoverEvent path =
    (if \<not> has hoverEvent ''contents'' \<and> \<not> has hoverEvent ''value'' then
       Inl (ComponentError ''HoverEvent does not have a contents or value property'' path)
     else
       case (if has hoverEvent ''contents'' then get hoverEvent ''contents''
             else get hoverEvent ''value'') of
         None \<Rightarrow>
           Inl (ComponentError
                  (if length (path @ [''contents'']) > MAX_CHAT_DEPTH then depthMessage
                   else ''Component is not an object'')
                  (path @ [''contents'']))
       | Some (JStr s) \<Rightarrow> Inr ()
       | Some (JArr xs) \<Rightarrow> assertEach xs (path @ [''contents'']) 0
       | Some contents \<Rightarrow> assertIsComponent contents (path @ [''contents'']))"
  by pat_completeness auto

termination
  by (relation "measure (\<lambda>x. case x of
          Inl (Inl (c, p)) \<Rightarrow> 2 * size c
        | Inl (Inr (xs, p, i)) \<Rightarrow> 2 * size_list size xs + 1
        | Inr (Inl (h, p)) \<Rightarrow> (case h of None \<Rightarrow> 0 | Some v \<Rightarrow> 2 * size v + 1)
        | Inr (Inr (h, p)) \<Rightarrow> 2 * size h)")
     (auto dest!: get_size split: if_splits option.splits simp: has_def)

declare assertIsComponent.simps [simp del]
declare assertIsShowTextHoverEvent.simps [simp del]

section \<open>The nodes of a component tree\<close>

text \<open>
  The components nested in a component, each with its path: the entries of \<^verbatim>\<open>extra\<close> and of
  \<^verbatim>\<open>with\<close> that are not strings, and the contents of a \<^verbatim>\<open>show_text\<close> hover event (one
  component, or the entries of an array that are not strings). The path of an entry is the
  path of its parent, the name of the property and the index.
\<close>

fun entryNodes :: "jv list \<Rightarrow> string list \<Rightarrow> nat \<Rightarrow> (jv \<times> string list) list" where
  "entryNodes [] pre i = []"
| "entryNodes (x # xs) pre i =
    (if typeof x = ''string'' then entryNodes xs pre (Suc i)
     else (x, pre @ [showNat i]) # entryNodes xs pre (Suc i))"

definition arrayNodes :: "jv option \<Rightarrow> string list \<Rightarrow> (jv \<times> string list) list" where
  "arrayNodes p pre = (case p of Some (JArr xs) \<Rightarrow> entryNodes xs pre 0 | other \<Rightarrow> [])"

text \<open>The components in the contents of a \<^verbatim>\<open>show_text\<close> event, which are read from
  \<^verbatim>\<open>contents\<close> or else from \<^verbatim>\<open>value\<close>.\<close>

definition textNodes :: "jv \<Rightarrow> string list \<Rightarrow> (jv \<times> string list) list" where
  "textNodes t tp =
    (case (if has t ''contents'' then get t ''contents'' else get t ''value'') of
       None \<Rightarrow> []
     | Some (JStr s) \<Rightarrow> []
     | Some (JArr xs) \<Rightarrow> entryNodes xs (tp @ [''contents'']) 0
     | Some v \<Rightarrow> [(v, tp @ [''contents''])])"

definition hoverNodes :: "jv option \<Rightarrow> string list \<Rightarrow> (jv \<times> string list) list" where
  "hoverNodes p pre =
    (case p of
       None \<Rightarrow> []
     | Some h \<Rightarrow> if get h ''action'' = Some (JStr ''show_text'') then textNodes h pre else [])"

definition childNodes :: "jv \<Rightarrow> string list \<Rightarrow> (jv \<times> string list) list" where
  "childNodes c path =
     arrayNodes (get c ''extra'') (path @ [''extra''])
     @ arrayNodes (get c ''with'') (path @ [''with''])
     @ hoverNodes (get c ''hoverEvent'') (path @ [''hoverEvent''])"

text \<open>\<open>nodeAt c p v q\<close>: the tree \<open>c\<close>, itself at path \<open>p\<close>, holds the node \<open>v\<close> at path \<open>q\<close>.\<close>

inductive nodeAt :: "jv \<Rightarrow> string list \<Rightarrow> jv \<Rightarrow> string list \<Rightarrow> bool" where
  root: "nodeAt c p c p"
| nested: "(c', p') \<in> set (childNodes c p) \<Longrightarrow> nodeAt c' p' v q \<Longrightarrow> nodeAt c p v q"

code_pred nodeAt .

section \<open>Output nodes and the log\<close>

text \<open>
  The renderer builds DOM nodes: text nodes, the \<^verbatim>\<open>span\<close> it returns (class list, inline
  colour, \<^verbatim>\<open>title\<close>, children) and the \<^verbatim>\<open>a\<close> elements of the linkifier
  (\<^verbatim>\<open>href\<close>, \<^verbatim>\<open>rel\<close>, \<^verbatim>\<open>target\<close>, children).
\<close>

datatype node =
    Text string
  | Span "string list" "string option" "string option" "node list"
  | Anchor string string string "node list"

fun textContent :: "node \<Rightarrow> string" where
  "textContent (Text s) = s"
| "textContent (Span classes color title children) = concat (map textContent children)"
| "textContent (Anchor href rel target children) = concat (map textContent children)"

text \<open>Assigning \<^verbatim>\<open>textContent\<close> replaces all children by one text node, or by none when the
  string is empty.\<close>

fun setTextContent :: "string \<Rightarrow> node \<Rightarrow> node" where
  "setTextContent s (Text t) = Text s"
| "setTextContent s (Span classes color title children) =
     Span classes color title (if s = [] then [] else [Text s])"
| "setTextContent s (Anchor href rel target children) =
     Anchor href rel target (if s = [] then [] else [Text s])"

fun classListAdd :: "string \<Rightarrow> node \<Rightarrow> node" where
  "classListAdd c (Span classes color title children) =
     Span (if c \<in> set classes then classes else classes @ [c]) color title children"
| "classListAdd c n = n"

fun setStyleColor :: "string \<Rightarrow> node \<Rightarrow> node" where
  "setStyleColor c (Span classes color title children) = Span classes (Some c) title children"
| "setStyleColor c n = n"

fun setTitle :: "string \<Rightarrow> node \<Rightarrow> node" where
  "setTitle t (Span classes color title children) = Span classes color (Some t) children"
| "setTitle t n = n"

fun appendChildren :: "node list \<Rightarrow> node \<Rightarrow> node" where
  "appendChildren ns (Span classes color title children) = Span classes color title (children @ ns)"
| "appendChildren ns (Anchor href rel target children) = Anchor href rel target (children @ ns)"
| "appendChildren ns (Text t) = Text t"

text \<open>An exception value, and what \<^verbatim>\<open>console.warn\<close> and \<^verbatim>\<open>console.error\<close> have printed.\<close>

datatype exn = TypeError string

datatype log_entry = Warn string | Err string exn

text \<open>A function over the entries of an array, with the log of the calls in order.\<close>

fun mapLog :: "('a \<Rightarrow> 'b \<times> log_entry list) \<Rightarrow> 'a list \<Rightarrow> 'b list \<times> log_entry list" where
  "mapLog f [] = ([], [])"
| "mapLog f (x # xs) =
     (case f x of (y, l) \<Rightarrow> (case mapLog f xs of (ys, ls) \<Rightarrow> (y # ys, l @ ls)))"

lemma mapLog_cong [fundef_cong]:
  "xs = ys \<Longrightarrow> (\<And>x. x \<in> set ys \<Longrightarrow> f x = g x) \<Longrightarrow> mapLog f xs = mapLog g ys"
  by (induction ys arbitrary: xs) auto

section \<open>Strings and the three regular expressions\<close>

definition isSpace :: "char \<Rightarrow> bool" where
  "isSpace c = ((of_char c :: nat) \<in> {9, 10, 11, 12, 13, 32, 160})"

definition isDigit :: "char \<Rightarrow> bool" where
  "isDigit c = (48 \<le> (of_char c :: nat) \<and> (of_char c :: nat) \<le> 57)"

definition isHexDigit :: "char \<Rightarrow> bool" where
  "isHexDigit c = (let n = (of_char c :: nat) in
     (48 \<le> n \<and> n \<le> 57) \<or> (65 \<le> n \<and> n \<le> 70) \<or> (97 \<le> n \<and> n \<le> 102))"

text \<open>\<^verbatim>\<open>toLowerCase\<close> on the first 256 code units.\<close>

definition toLowerChar :: "char \<Rightarrow> char" where
  "toLowerChar c = (let n = (of_char c :: nat) in
     if (65 \<le> n \<and> n \<le> 90) \<or> (192 \<le> n \<and> n \<le> 222 \<and> n \<noteq> 215) then char_of (n + 32) else c)"

definition toLowerCase :: "string \<Rightarrow> string" where
  "toLowerCase s = map toLowerChar s"

definition startsWith :: "string \<Rightarrow> string \<Rightarrow> bool" where
  "startsWith s p = (take (length p) s = p)"

text \<open>\<^verbatim>\<open>s.includes(sub)\<close>.\<close>

fun includesStr :: "string \<Rightarrow> string \<Rightarrow> bool" where
  "includesStr [] sub = (sub = [])"
| "includesStr (c # cs) sub = (startsWith (c # cs) sub \<or> includesStr cs sub)"

text \<open>
  \<^verbatim>\<open>parseInt\<close> of a run of decimal digits: the number the digits denote. JavaScript
  computes this very number when it is at most \<open>2\<^sup>5\<^sup>3\<close>; a larger one is rounded to a
  double there, which changes nothing in the argument selected (no array is that long) and
  changes the number that a warning prints. The statements about warnings stay below the
  bound.
\<close>

definition parseInt :: "string \<Rightarrow> nat" where
  "parseInt ds = foldl (\<lambda>a c. 10 * a + ((of_char c :: nat) - 48)) 0 ds"

text \<open>
  A match of a regular expression is the pair of \<^verbatim>\<open>match[0]\<close> and \<^verbatim>\<open>match[1]\<close>. Each
  of the three functions below gives the match that starts at the first character of its
  argument, if there is one.

  \<^verbatim>\<open>/(https?:\/\/[^\s]+)/\<close>: the scheme, then the longest run of non-whitespace, which must
  not be empty.
\<close>

definition urlAt :: "string \<Rightarrow> (string \<times> string) option" where
  "urlAt s =
    (if startsWith s ''https://'' \<and> takeWhile (\<lambda>c. \<not> isSpace c) (drop 8 s) \<noteq> [] then
       (let m = ''https://'' @ takeWhile (\<lambda>c. \<not> isSpace c) (drop 8 s) in Some (m, m))
     else if startsWith s ''http://'' \<and> takeWhile (\<lambda>c. \<not> isSpace c) (drop 7 s) \<noteq> [] then
       (let m = ''http://'' @ takeWhile (\<lambda>c. \<not> isSpace c) (drop 7 s) in Some (m, m))
     else None)"

text \<open>\<^verbatim>\<open>/%(\d+)\$s/\<close>: a percent sign, the longest run of digits (not empty), then
  \<^verbatim>\<open>$s\<close>.\<close>

definition numberedAt :: "string \<Rightarrow> (string \<times> string) option" where
  "numberedAt s =
    (case s of
       [] \<Rightarrow> None
     | c # r \<Rightarrow>
        if c = CHR ''%'' \<and> takeWhile isDigit r \<noteq> [] \<and> startsWith (dropWhile isDigit r) ''$s''
        then Some (c # takeWhile isDigit r @ ''$s'', takeWhile isDigit r)
        else None)"

text \<open>\<^verbatim>\<open>/%s/\<close>; it has no group.\<close>

definition simpleAt :: "string \<Rightarrow> (string \<times> string) option" where
  "simpleAt s = (if startsWith s ''%s'' then Some (''%s'', []) else None)"

text \<open>
  \<^verbatim>\<open>regex.exec\<close> on the text from \<^verbatim>\<open>lastIndex\<close> on: the leftmost match, as its distance
  from \<^verbatim>\<open>lastIndex\<close> and the match itself. The loops below keep the text from
  \<^verbatim>\<open>lastIndex\<close> on as their state.
\<close>

fun exec :: "(string \<Rightarrow> (string \<times> string) option) \<Rightarrow> string \<Rightarrow> (nat \<times> string \<times> string) option" where
  "exec at [] = (case at [] of None \<Rightarrow> None | Some m \<Rightarrow> Some (0, m))"
| "exec at (c # cs) =
    (case at (c # cs) of
       Some m \<Rightarrow> Some (0, m)
     | None \<Rightarrow> (case exec at cs of None \<Rightarrow> None | Some (i, m) \<Rightarrow> Some (Suc i, m)))"

lemma exec_Some:
  assumes "exec at s = Some (i, m)"
  shows "at (drop i s) = Some m \<and> i \<le> length s"
  using assms
proof (induction s arbitrary: i)
  case Nil
  then show ?case by (auto split: option.splits)
next
  case (Cons c cs)
  then show ?case by (cases "at (c # cs)") (auto split: option.splits)
qed

lemma scheme_run:
  assumes "take n s = p" and "length p = n"
  shows "length (p @ takeWhile P (drop n s)) \<le> length s
       \<and> take (length (p @ takeWhile P (drop n s))) s = p @ takeWhile P (drop n s)"
proof -
  define a where "a = p @ takeWhile P (drop n s)"
  define b where "b = dropWhile P (drop n s)"
  have "s = take n s @ drop n s" by simp
  also have "drop n s = takeWhile P (drop n s) @ dropWhile P (drop n s)" by simp
  finally have s: "s = a @ b"
    using assms(1) by (simp add: a_def b_def)
  have "length a \<le> length s \<and> take (length a) s = a"
    by (simp add: s)
  then show ?thesis by (simp only: a_def)
qed

lemma urlAt_Some:
  assumes "urlAt s = Some (m, g)"
  shows "m \<noteq> [] \<and> length m \<le> length s \<and> take (length m) s = m \<and> g = m"
proof (cases "startsWith s ''https://'' \<and> takeWhile (\<lambda>c. \<not> isSpace c) (drop 8 s) \<noteq> []")
  case True
  then have m: "m = ''https://'' @ takeWhile (\<lambda>c. \<not> isSpace c) (drop 8 s)" and g: "g = m"
    using assms by (auto simp: urlAt_def Let_def)
  from True have "take 8 s = ''https://''" by (simp add: startsWith_def eval_nat_numeral)
  from scheme_run [OF this, of "\<lambda>c. \<not> isSpace c"] m g show ?thesis by simp
next
  case False
  then have h: "startsWith s ''http://''"
    and m: "m = ''http://'' @ takeWhile (\<lambda>c. \<not> isSpace c) (drop 7 s)" and g: "g = m"
    using assms by (auto simp: urlAt_def Let_def split: if_splits)
  from h have "take 7 s = ''http://''" by (simp add: startsWith_def eval_nat_numeral)
  from scheme_run [OF this, of "\<lambda>c. \<not> isSpace c"] m g show ?thesis by simp
qed

section \<open>The linkifier\<close>

definition createLink :: "string \<Rightarrow> node" where
  "createLink url =
     setTextContent url (Anchor url ''noopener noreferrer'' ''_blank'' [])"

text \<open>The \<^verbatim>\<open>while\<close> loop of \<^verbatim>\<open>linkifyText\<close> and the statement after it, on the text from
  \<^verbatim>\<open>lastIndex\<close> on.\<close>

function linkifyFrom :: "string \<Rightarrow> node list" where
  "linkifyFrom rest =
    (case exec urlAt rest of
       None \<Rightarrow> (if rest \<noteq> [] then [Text rest] else [])
     | Some (i, url, g) \<Rightarrow>
         (if 0 < i then [Text (take i rest)] else [])
         @ [createLink g]
         @ linkifyFrom (drop (i + length url) rest))"
  by pat_completeness auto

termination
proof (relation "measure length", goal_cases)
  case 1
  show ?case by simp
next
  case (2 rest x i m url g)
  then have e: "exec urlAt rest = Some (i, url, g)" by simp
  from exec_Some [OF e] have "urlAt (drop i rest) = Some (url, g)" and "i \<le> length rest"
    by simp_all
  with urlAt_Some [of "drop i rest" url g]
  have "0 < length url" and "length url \<le> length rest - i" by simp_all
  then have "length rest - (i + length url) < length rest" by arith
  then show ?case by simp
qed

declare linkifyFrom.simps [simp del]

definition linkifyText :: "string \<Rightarrow> node list" where
  "linkifyText text = linkifyFrom text"

section \<open>Colours\<close>

text \<open>\<^verbatim>\<open>/^#[0-9a-fA-F]{6}$/.test\<close>.\<close>

definition hexColorTest :: "string \<Rightarrow> bool" where
  "hexColorTest s =
    (case s of [] \<Rightarrow> False | c # r \<Rightarrow> c = CHR ''#'' \<and> length r = 6 \<and> list_all isHexDigit r)"

definition isValidColor :: "string \<Rightarrow> bool" where
  "isValidColor color =
    (if color = [] then False
     else if toLowerCase color \<in> set VALID_COLORS then True
     else hexColorTest (toLowerCase color))"

section \<open>Components as the renderer reads them\<close>

text \<open>
  The \<^verbatim>\<open>Component\<close> and \<^verbatim>\<open>HoverEvent\<close> types of the source, every property optional. The
  fields of a component are, in this order: \<^verbatim>\<open>text\<close>, \<^verbatim>\<open>translate\<close>, \<^verbatim>\<open>with\<close>,
  \<^verbatim>\<open>extra\<close>, \<^verbatim>\<open>color\<close>, \<^verbatim>\<open>bold\<close>, \<^verbatim>\<open>italic\<close>, \<^verbatim>\<open>underlined\<close>, \<^verbatim>\<open>strikethrough\<close>,
  \<^verbatim>\<open>obfuscated\<close>, \<^verbatim>\<open>hoverEvent\<close>. The fields of a hover event are \<^verbatim>\<open>contents\<close> and
  \<^verbatim>\<open>value\<close>; those of \<^verbatim>\<open>show_item\<close> and \<^verbatim>\<open>show_entity\<close> stay the values received,
  since the validator accepts any \<^verbatim>\<open>contents\<close> beside a string \<^verbatim>\<open>value\<close>.
\<close>

datatype component =
    Component "string option" "string option" "part list option" "part list option"
      "string option" "bool option" "bool option" "bool option" "bool option" "bool option"
      "hoverEvent option"
  and part = PString string | PComponent component
  and hoverEvent =
    ShowText "textContents option" "textContents option"
  | ShowItem "jv option" "jv option"
  | ShowEntity "jv option" "jv option"
  and textContents = TString string | TComponent component | TArray "part list"

text \<open>The result of \<^verbatim>\<open>translations[key]\<close>: \<open>None\<close> for \<^verbatim>\<open>undefined\<close>, a template string, or
  a member that the table inherits from \<^verbatim>\<open>Object.prototype\<close>, which is truthy and has no
  \<^verbatim>\<open>includes\<close> method. The table itself is a parameter of the renderer.\<close>

datatype lookup = Template string | Inherited

type_synonym translation_table = "string \<Rightarrow> lookup option"

subsection \<open>Values as strings\<close>

fun joinStrings :: "string list \<Rightarrow> string" where
  "joinStrings [] = []"
| "joinStrings [s] = s"
| "joinStrings (s # t # ss) = s @ '','' @ joinStrings (t # ss)"

text \<open>\<^verbatim>\<open>String(v)\<close>: a number gives the string that stands for it; an array joins its
  entries, with \<^verbatim>\<open>null\<close> as the empty string; an
  object with an own \<^verbatim>\<open>toString\<close> property, which cannot be a function, has no primitive
  value.\<close>

fun toString :: "jv \<Rightarrow> exn + string"
  and toStringEntries :: "jv list \<Rightarrow> exn + string list"
where
  "toString JNull = Inr ''null''"
| "toString (JBool b) = Inr (if b then ''true'' else ''false'')"
| "toString (JNum n) = Inr n"
| "toString (JStr s) = Inr s"
| "toString (JArr xs) =
     (case toStringEntries xs of Inl e \<Rightarrow> Inl e | Inr ss \<Rightarrow> Inr (joinStrings ss))"
| "toString (JObj kvs) =
     (if map_of kvs ''toString'' \<noteq> None
      then Inl (TypeError ''Cannot convert object to primitive value'')
      else Inr ''[object Object]'')"
| "toStringEntries [] = Inr []"
| "toStringEntries (x # xs) =
     (case (if x = JNull then Inr [] else toString x) of
        Inl e \<Rightarrow> Inl e
      | Inr s \<Rightarrow> (case toStringEntries xs of Inl e \<Rightarrow> Inl e | Inr ss \<Rightarrow> Inr (s # ss)))"

definition toStringProp :: "jv option \<Rightarrow> exn + string" where
  "toStringProp p = (case p of None \<Rightarrow> Inr ''undefined'' | Some v \<Rightarrow> toString v)"

text \<open>\<^verbatim>\<open>p.k\<close> where \<open>p\<close> is itself the result of a property read.\<close>

definition getProp :: "jv option \<Rightarrow> string \<Rightarrow> jv option" where
  "getProp p k = (case p of None \<Rightarrow> None | Some v \<Rightarrow> get v k)"

text \<open>A string property that is present and not empty, which is when it is truthy.\<close>

definition truthyString :: "string option \<Rightarrow> string option" where
  "truthyString p = (case p of None \<Rightarrow> None | Some s \<Rightarrow> if s = [] then None else Some s)"

section \<open>Substitution\<close>

lemma exec_shorter:
  assumes at: "\<And>s m g. at s = Some (m, g) \<Longrightarrow> m \<noteq> [] \<and> length m \<le> length s"
    and e: "exec at rest = Some (i, m, g)"
  shows "length (drop (i + length m) rest) < length rest"
proof -
  from exec_Some [OF e] have a: "at (drop i rest) = Some (m, g)" and i: "i \<le> length rest"
    by simp_all
  from at [OF a] have "0 < length m" and "length m \<le> length rest - i" by simp_all
  with i have "length rest - (i + length m) < length rest" by arith
  then show ?thesis by simp
qed

lemma numberedAt_Some:
  assumes "numberedAt s = Some (m, g)"
  shows "m \<noteq> [] \<and> length m \<le> length s"
proof (cases s)
  case Nil
  with assms show ?thesis by (simp add: numberedAt_def)
next
  case (Cons c r)
  with assms have m: "m = c # takeWhile isDigit r @ ''$s''"
    and d: "take 2 (dropWhile isDigit r) = ''$s''"
    by (auto simp: numberedAt_def startsWith_def eval_nat_numeral split: if_splits)
  have "length (take 2 (dropWhile isDigit r)) \<le> length (dropWhile isDigit r)" by simp
  with d have "2 \<le> length (dropWhile isDigit r)" by simp
  moreover have "length r = length (takeWhile isDigit r) + length (dropWhile isDigit r)"
    by (metis length_append takeWhile_dropWhile_id)
  ultimately show ?thesis using m Cons by simp
qed

lemma simpleAt_Some:
  assumes "simpleAt s = Some (m, g)"
  shows "m \<noteq> [] \<and> length m \<le> length s"
proof -
  from assms have m: "m = ''%s''" and t: "take 2 s = ''%s''"
    by (auto simp: simpleAt_def startsWith_def eval_nat_numeral split: if_splits)
  have "length (take 2 s) \<le> length s" by simp
  with t have "2 \<le> length s" by simp
  with m show ?thesis by simp
qed

text \<open>\<^verbatim>\<open>args[index]\<close>.\<close>

definition argAt :: "part list \<Rightarrow> int \<Rightarrow> part option" where
  "argAt args index =
     (if 0 \<le> index \<and> index < int (length args) then Some (args ! nat index) else None)"

text \<open>
  What one placeholder becomes, in both substitutions: the token itself and a warning when the
  argument is falsy (\<^verbatim>\<open>undefined\<close> or the empty string), a text node for a string, the
  rendered component otherwise. \<open>shown\<close> is the index as the warning prints it.
\<close>

definition substitute ::
  "(component \<Rightarrow> node \<times> log_entry list) \<Rightarrow> string \<Rightarrow> part option \<Rightarrow> int \<Rightarrow> string
    \<Rightarrow> node \<times> log_entry list" where
  "substitute f template v shown token =
    (let missing = (Text token,
           [Warn (''Missing argument '' @ showInt shown @ '' for template \"'' @ template @ ''\"'')])
     in case v of
          None \<Rightarrow> missing
        | Some (PString s) \<Rightarrow> if s = [] then missing else (Text s, [])
        | Some (PComponent c) \<Rightarrow> f c)"

lemma substitute_cong:
  assumes "\<And>c. v = Some (PComponent c) \<Longrightarrow> f c = g c"
  shows "substitute f template v shown token = substitute g template v shown token"
  using assms by (auto simp: substitute_def Let_def split: option.splits part.splits)

lemma argAt_mem: "argAt args i = Some p \<Longrightarrow> p \<in> set args"
  by (auto simp: argAt_def split: if_splits)

text \<open>The loop of \<^verbatim>\<open>numberedSubstitution\<close> and the statement after it, on the template from
  \<^verbatim>\<open>lastIndex\<close> on.\<close>

function numberedFrom ::
  "(component \<Rightarrow> node \<times> log_entry list) \<Rightarrow> string \<Rightarrow> part list \<Rightarrow> string
    \<Rightarrow> node list \<times> log_entry list" where
  "numberedFrom f template args rest =
    (case exec numberedAt rest of
       None \<Rightarrow> (if rest \<noteq> [] then [Text rest] else [], [])
     | Some (i, token, digits) \<Rightarrow>
        (case substitute f template (argAt args (int (parseInt digits) - 1))
                (int (parseInt digits) - 1) token of
           (n, l) \<Rightarrow>
             (case numberedFrom f template args (drop (i + length token) rest) of
                (ns, ls) \<Rightarrow> ((if 0 < i then [Text (take i rest)] else []) @ [n] @ ns, l @ ls))))"
  by pat_completeness auto

termination
proof (relation "measure (\<lambda>(f, template, args, rest). length rest)", goal_cases)
  case 1
  show ?case by simp
next
  case (2 f template args rest x2 i y token digits x1 x2a)
  then have "exec numberedAt rest = Some (i, token, digits)" by simp
  from exec_shorter [OF numberedAt_Some this] show ?case by simp
qed

declare numberedFrom.simps [simp del]

definition numberedSubstitution ::
  "(component \<Rightarrow> node \<times> log_entry list) \<Rightarrow> string \<Rightarrow> part list \<Rightarrow> node list \<times> log_entry list" where
  "numberedSubstitution f template args = numberedFrom f template args template"

text \<open>The loop of \<^verbatim>\<open>simpleSubstitution\<close>; \<open>index\<close> is the index into \<^verbatim>\<open>args\<close>, already
  incremented when the warning prints it.\<close>

function simpleFrom ::
  "(component \<Rightarrow> node \<times> log_entry list) \<Rightarrow> string \<Rightarrow> part list \<Rightarrow> nat \<Rightarrow> string
    \<Rightarrow> node list \<times> log_entry list" where
  "simpleFrom f template args index rest =
    (case exec simpleAt rest of
       None \<Rightarrow> (if rest \<noteq> [] then [Text rest] else [], [])
     | Some (i, token, g) \<Rightarrow>
        (case substitute f template (argAt args (int index)) (int (Suc index)) ''%s'' of
           (n, l) \<Rightarrow>
             (case simpleFrom f template args (Suc index) (drop (i + length token) rest) of
                (ns, ls) \<Rightarrow> ((if 0 < i then [Text (take i rest)] else []) @ [n] @ ns, l @ ls))))"
  by pat_completeness auto

termination
proof (relation "measure (\<lambda>(f, template, args, index, rest). length rest)", goal_cases)
  case 1
  show ?case by simp
next
  case (2 f template args index rest x2 i y token g x1 x2a)
  then have "exec simpleAt rest = Some (i, token, g)" by simp
  from exec_shorter [OF simpleAt_Some this] show ?case by simp
qed

declare simpleFrom.simps [simp del]

definition simpleSubstitution ::
  "(component \<Rightarrow> node \<times> log_entry list) \<Rightarrow> string \<Rightarrow> part list \<Rightarrow> node list \<times> log_entry list" where
  "simpleSubstitution f template args = simpleFrom f template args 0 template"

text \<open>An entry of \<^verbatim>\<open>extra\<close> or of the arguments as a node.\<close>

definition partNode ::
  "(component \<Rightarrow> node \<times> log_entry list) \<Rightarrow> part \<Rightarrow> node \<times> log_entry list" where
  "partNode f p = (case p of PString s \<Rightarrow> (Text s, []) | PComponent c \<Rightarrow> f c)"

lemma partNode_cong [fundef_cong]:
  "p = q \<Longrightarrow> (\<And>c. q = PComponent c \<Longrightarrow> f c = g c) \<Longrightarrow> partNode f p = partNode g q"
  by (auto simp: partNode_def split: part.splits)

text \<open>\<^verbatim>\<open>formatTranslation\<close>; \<open>f\<close> is \<^verbatim>\<open>formatComponent\<close>.\<close>

definition formatTranslation ::
  "(component \<Rightarrow> node \<times> log_entry list) \<Rightarrow> translation_table \<Rightarrow> string \<Rightarrow> part list
    \<Rightarrow> node list \<times> log_entry list" where
  "formatTranslation f table key args =
    (if key = [] then ([Text key], [Warn ''Translation key is missing''])
     else if key = ''%s'' then
       (if length args = 0 then
          ([Text key], [Warn (''Missing arguments for placeholder key: '' @ key)])
        else mapLog (partNode f) args)
     else case table key of
       None \<Rightarrow> ([Text key], [Warn (''Missing translation for key: '' @ key)])
     | Some Inherited \<Rightarrow>
         ([Text key],
          [Err (''Error formatting translation for key: '' @ key)
             (TypeError ''template.includes is not a function'')])
     | Some (Template template) \<Rightarrow>
         if template = [] then ([Text key], [Warn (''Missing translation for key: '' @ key)])
         else if includesStr template ''$s'' then numberedSubstitution f template args
         else simpleSubstitution f template args)"

lemma numberedFrom_cong:
  "(\<And>c. PComponent c \<in> set args \<Longrightarrow> f c = g c)
    \<Longrightarrow> numberedFrom f template args rest = numberedFrom g template args rest"
proof (induction f template args rest rule: numberedFrom.induct)
  case (1 f template args rest)
  show ?case
  proof (cases "exec numberedAt rest")
    case None
    then show ?thesis by (simp add: numberedFrom.simps [of _ template args rest])
  next
    case (Some r)
    obtain i token digits where r: "r = (i, token, digits)" by (cases r) auto
    define v where "v = argAt args (int (parseInt digits) - 1)"
    have s: "substitute f template v (int (parseInt digits) - 1) token
           = substitute g template v (int (parseInt digits) - 1) token"
      using "1.prems" argAt_mem [of args "int (parseInt digits) - 1"]
      by (intro substitute_cong) (simp add: v_def)
    obtain n l where nl: "substitute f template v (int (parseInt digits) - 1) token = (n, l)"
      by (cases "substitute f template v (int (parseInt digits) - 1) token") auto
    from "1.IH" [OF Some [unfolded r] refl refl nl [unfolded v_def, symmetric] "1.prems"]
    have "numberedFrom f template args (drop (i + length token) rest)
        = numberedFrom g template args (drop (i + length token) rest)" .
    with Some r s nl show ?thesis
      by (simp add: numberedFrom.simps [of _ template args rest] v_def)
  qed
qed

lemma simpleFrom_cong:
  "(\<And>c. PComponent c \<in> set args \<Longrightarrow> f c = g c)
    \<Longrightarrow> simpleFrom f template args index rest = simpleFrom g template args index rest"
proof (induction f template args index rest rule: simpleFrom.induct)
  case (1 f template args index rest)
  show ?case
  proof (cases "exec simpleAt rest")
    case None
    then show ?thesis by (simp add: simpleFrom.simps [of _ template args index rest])
  next
    case (Some r)
    obtain i token grp where r: "r = (i, token, grp)" by (cases r) auto
    define v where "v = argAt args (int index)"
    have s: "substitute f template v (int (Suc index)) ''%s''
           = substitute g template v (int (Suc index)) ''%s''"
      using "1.prems" argAt_mem [of args "int index"]
      by (intro substitute_cong) (simp add: v_def)
    obtain n l where nl: "substitute f template v (int (Suc index)) ''%s'' = (n, l)"
      by (cases "substitute f template v (int (Suc index)) ''%s''") auto
    from "1.IH" [OF Some [unfolded r] refl refl nl [unfolded v_def, symmetric] "1.prems"]
    have "simpleFrom f template args (Suc index) (drop (i + length token) rest)
        = simpleFrom g template args (Suc index) (drop (i + length token) rest)" .
    with Some r s nl show ?thesis
      by (simp add: simpleFrom.simps [of _ template args index rest] v_def)
  qed
qed

lemma formatTranslation_cong [fundef_cong]:
  assumes "table = table'" and "key = key'" and "args = args'"
    and "\<And>c. PComponent c \<in> set args' \<Longrightarrow> f c = g c"
  shows "formatTranslation f table key args = formatTranslation g table' key' args'"
proof -
  have m: "mapLog (partNode f) args' = mapLog (partNode g) args'"
    by (rule mapLog_cong) (auto simp: partNode_def assms(4) split: part.splits)
  have n: "numberedSubstitution f t args' = numberedSubstitution g t args'" for t
    unfolding numberedSubstitution_def by (rule numberedFrom_cong) (rule assms(4))
  have s: "simpleSubstitution f t args' = simpleSubstitution g t args'" for t
    unfolding simpleSubstitution_def by (rule simpleFrom_cong) (rule assms(4))
  show ?thesis
    unfolding formatTranslation_def assms(1-3) m n s ..
qed

section \<open>Hover events\<close>

text \<open>The \<^verbatim>\<open>show_item\<close> and \<^verbatim>\<open>show_entity\<close> cases of \<^verbatim>\<open>formatHoverEvent\<close>. The result is
  the value returned, \<open>None\<close> for \<^verbatim>\<open>undefined\<close>; the template literal converts its two
  holes to strings, which may throw.\<close>

definition formatShowItem :: "jv option \<Rightarrow> (exn + jv option) \<times> log_entry list" where
  "formatShowItem contents =
    (if \<not> truthyProp contents then (Inr (Some (JStr [])), [Warn ''Unsupported legacy hoverEvent''])
     else if truthyProp (getProp contents ''count'') then
       (case toStringProp (getProp contents ''count'') of
          Inl e \<Rightarrow> (Inl e, [])
        | Inr count \<Rightarrow>
           (case toStringProp (getProp contents ''id'') of
              Inl e \<Rightarrow> (Inl e, [])
            | Inr ident \<Rightarrow> (Inr (Some (JStr (count @ ''x '' @ ident))), [])))
     else (Inr (getProp contents ''id''), []))"

definition formatShowEntity :: "jv option \<Rightarrow> (exn + jv option) \<times> log_entry list" where
  "formatShowEntity contents =
    (if \<not> truthyProp contents then (Inr (Some (JStr [])), [Warn ''Unsupported legacy hoverEvent''])
     else if truthyProp (getProp contents ''name'') then (Inr (getProp contents ''name''), [])
     else (Inr (Some (JStr ''Unnamed Entity'')), []))"

section \<open>The renderer\<close>

definition applyColor :: "string option \<Rightarrow> node \<Rightarrow> node \<times> log_entry list" where
  "applyColor color result =
    (case truthyString color of
       None \<Rightarrow> (result, [])
     | Some c \<Rightarrow>
         if \<not> isValidColor c then (result, [Warn (''Invalid color format: '' @ c)])
         else if startsWith c ''#'' then (setStyleColor c result, [])
         else (classListAdd (''mc-'' @ map (\<lambda>x. if x = CHR ''_'' then CHR ''-'' else x) c) result,
               []))"

definition applyFlag :: "bool option \<Rightarrow> string \<Rightarrow> node \<Rightarrow> node" where
  "applyFlag flag cls result = (if flag = Some True then classListAdd cls result else result)"

text \<open>The statements of the \<^verbatim>\<open>try\<close> block before the tooltip: colour, then the five flags.\<close>

definition styleSpan ::
  "string option \<Rightarrow> bool option \<Rightarrow> bool option \<Rightarrow> bool option \<Rightarrow> bool option \<Rightarrow> bool option
    \<Rightarrow> node \<times> log_entry list" where
  "styleSpan color bold italic underlined strikethrough obfuscated =
    (case applyColor color (Span [] None None []) of
       (result, l) \<Rightarrow>
         (applyFlag obfuscated ''mc-obfuscated''
           (applyFlag strikethrough ''mc-strikethrough''
             (applyFlag underlined ''mc-underlined''
               (applyFlag italic ''mc-italic''
                 (applyFlag bold ''mc-bold'' result)))), l))"

text \<open>\<^verbatim>\<open>result.title = formatHoverEvent(...)\<close>: the value returned becomes a string.\<close>

definition titleOf :: "(exn + jv option) \<times> log_entry list \<Rightarrow> (exn + string option) \<times> log_entry list" where
  "titleOf r =
    (case r of
       (Inl e, l) \<Rightarrow> (Inl e, l)
     | (Inr v, l) \<Rightarrow> (case toStringProp v of Inl e \<Rightarrow> (Inl e, l) | Inr t \<Rightarrow> (Inr (Some t), l)))"

text \<open>
  The \<^verbatim>\<open>try\<close> block up to the length check, from its four parts in the order they run: the
  styled span, the tooltip, the node's own content, the entries of \<^verbatim>\<open>extra\<close>. When the
  tooltip throws, the statements after it do not run.
\<close>

definition assemble ::
  "node \<times> log_entry list \<Rightarrow> (exn + string option) \<times> log_entry list
    \<Rightarrow> node list \<times> log_entry list \<Rightarrow> node list \<times> log_entry list
    \<Rightarrow> (exn + node) \<times> log_entry list" where
  "assemble styled tooltip content extras =
    (case tooltip of
       (Inl e, l2) \<Rightarrow> (Inl e, snd styled @ l2)
     | (Inr t, l2) \<Rightarrow>
        (Inr (appendChildren (fst extras)
               (appendChildren (fst content)
                 (case t of None \<Rightarrow> fst styled | Some s \<Rightarrow> setTitle s (fst styled)))),
         snd styled @ l2 @ snd content @ snd extras))"

text \<open>The length check at the end of the \<^verbatim>\<open>try\<close> block, and the \<^verbatim>\<open>catch\<close> block.\<close>

definition finish :: "string option \<Rightarrow> (exn + node) \<times> log_entry list \<Rightarrow> node \<times> log_entry list" where
  "finish text r =
    (case r of
       (Inr result, l) \<Rightarrow>
         if textContent result \<noteq> [] \<and> length (textContent result) > MAX_CHAT_LENGTH then
           (setTextContent (take MAX_CHAT_LENGTH (textContent result)) result,
            l @ [Warn ''Chat message exceeded maximum length, truncating''])
         else (result, l)
     | (Inl e, l) \<Rightarrow>
         (Text (take MAX_CHAT_LENGTH (case text of None \<Rightarrow> [] | Some s \<Rightarrow> s)),
          l @ [Err ''Error formatting component:'' e]))"

lemma part_size: "PComponent c \<in> set xs \<Longrightarrow> size c < size_list size xs"
  by (induction xs) auto

text \<open>
  \<^verbatim>\<open>formatComponent\<close>, its \<^verbatim>\<open>try\<close> block \<open>formatComponentTry\<close> before the length check,
  \<^verbatim>\<open>formatComponentPlainText\<close> and \<^verbatim>\<open>formatHoverEvent\<close>.
\<close>

function formatComponent :: "translation_table \<Rightarrow> component \<Rightarrow> node \<times> log_entry list"
  and formatComponentTry :: "translation_table \<Rightarrow> component \<Rightarrow> (exn + node) \<times> log_entry list"
  and formatComponentPlainText :: "translation_table \<Rightarrow> component \<Rightarrow> string \<times> log_entry list"
  and formatHoverEvent :: "translation_table \<Rightarrow> hoverEvent \<Rightarrow> (exn + jv option) \<times> log_entry list"
where
  "formatComponent table
     (Component text translate withArgs extra color bold italic underlined strikethrough obfuscated
        hoverEvent) =
    finish text
      (formatComponentTry table
         (Component text translate withArgs extra color bold italic underlined strikethrough
            obfuscated hoverEvent))"
| "formatComponentTry table
     (Component text translate withArgs extra color bold italic underlined strikethrough obfuscated
        hoverEvent) =
    assemble
      (styleSpan color bold italic underlined strikethrough obfuscated)
      (case hoverEvent of
         None \<Rightarrow> (Inr None, [])
       | Some h \<Rightarrow> titleOf (formatHoverEvent table h))
      (case truthyString text of
         Some s \<Rightarrow> (linkifyText s, [])
       | None \<Rightarrow>
          (case truthyString translate of
             Some key \<Rightarrow>
               formatTranslation (formatComponent table) table key
                 (case withArgs of None \<Rightarrow> [] | Some args \<Rightarrow> args)
           | None \<Rightarrow> ([], [])))
      (case extra of
         None \<Rightarrow> ([], [])
       | Some entries \<Rightarrow> mapLog (partNode (formatComponent table)) entries)"
| "formatComponentPlainText table
     (Component text translate withArgs extra color bold italic underlined strikethrough obfuscated
        hoverEvent) =
    (case (case truthyString text of
             Some s \<Rightarrow> (s, [])
           | None \<Rightarrow>
              (case truthyString translate of
                 Some key \<Rightarrow>
                   (case formatTranslation (formatComponent table) table key
                           (case withArgs of None \<Rightarrow> [] | Some args \<Rightarrow> args) of
                      (nodes, l) \<Rightarrow> (concat (map textContent nodes), l))
               | None \<Rightarrow> ([], []))) of
       (own, l1) \<Rightarrow>
        (case (case extra of
                 None \<Rightarrow> ([], [])
               | Some entries \<Rightarrow>
                  mapLog (\<lambda>p. case p of
                                PString s \<Rightarrow> (s, [])
                              | PComponent c \<Rightarrow> formatComponentPlainText table c) entries) of
           (rest, l2) \<Rightarrow> (own @ concat rest, l1 @ l2)))"
| "formatHoverEvent table (ShowText contents value) =
    (case (case contents of Some c \<Rightarrow> Some c | None \<Rightarrow> value) of
       None \<Rightarrow> (Inr (Some (JStr [])), [Warn ''HoverEvent.contents is undefined''])
     | Some (TString s) \<Rightarrow> (Inr (Some (JStr s)), [])
     | Some (TArray entries) \<Rightarrow>
        (case mapLog (\<lambda>p. case p of
                             PString s \<Rightarrow> (s, [])
                           | PComponent c \<Rightarrow> formatComponentPlainText table c) entries of
           (ss, l) \<Rightarrow> (Inr (Some (JStr (concat ss))), l))
     | Some (TComponent c) \<Rightarrow>
        (case formatComponentPlainText table c of (s, l) \<Rightarrow> (Inr (Some (JStr s)), l)))"
| "formatHoverEvent table (ShowItem contents value) = formatShowItem contents"
| "formatHoverEvent table (ShowEntity contents value) = formatShowEntity contents"
  by pat_completeness auto

termination
  by (relation "measure (\<lambda>x. case x of
          Inl (Inl (t, c)) \<Rightarrow> 2 * size c + 1
        | Inl (Inr (t, c)) \<Rightarrow> 2 * size c
        | Inr (Inl (t, c)) \<Rightarrow> 2 * size c
        | Inr (Inr (t, h)) \<Rightarrow> 2 * size h)")
     (auto dest!: part_size split: option.splits)

section \<open>A validated value as a component\<close>

text \<open>
  The renderer is written against the \<^verbatim>\<open>Component\<close> type; \<open>asComponent\<close> reads a value
  received as a value of that type, property by property, and is undefined (\<open>None\<close>) when a
  property the renderer reads has another type than the one declared. Properties the renderer
  never reads are left out: unknown ones, and the \<^verbatim>\<open>value\<close> of a \<^verbatim>\<open>show_text\<close> event that has
  \<^verbatim>\<open>contents\<close>.
\<close>

definition asStringField :: "jv option \<Rightarrow> string option option" where
  "asStringField p =
    (case p of None \<Rightarrow> Some None | Some (JStr s) \<Rightarrow> Some (Some s) | Some other \<Rightarrow> None)"

definition asBoolField :: "jv option \<Rightarrow> bool option option" where
  "asBoolField p =
    (case p of None \<Rightarrow> Some None | Some (JBool b) \<Rightarrow> Some (Some b) | Some other \<Rightarrow> None)"

definition consOption :: "'a option \<Rightarrow> 'a list option \<Rightarrow> 'a list option" where
  "consOption x xs = Option.bind x (\<lambda>y. map_option ((#) y) xs)"

text \<open>The component of its eleven properties, when each of them has its type.\<close>

definition buildComponent ::
  "string option option \<Rightarrow> string option option \<Rightarrow> part list option option
    \<Rightarrow> part list option option \<Rightarrow> string option option \<Rightarrow> bool option option
    \<Rightarrow> bool option option \<Rightarrow> bool option option \<Rightarrow> bool option option
    \<Rightarrow> bool option option \<Rightarrow> hoverEvent option option \<Rightarrow> component option" where
  "buildComponent t tr w e c b i u s ob h =
     Option.bind t (\<lambda>text.
     Option.bind tr (\<lambda>translate.
     Option.bind w (\<lambda>withArgs.
     Option.bind e (\<lambda>extra.
     Option.bind c (\<lambda>color.
     Option.bind b (\<lambda>bold.
     Option.bind i (\<lambda>italic.
     Option.bind u (\<lambda>underlined.
     Option.bind s (\<lambda>strikethrough.
     Option.bind ob (\<lambda>obfuscated.
     Option.bind h (\<lambda>hoverEvent.
       Some (Component text translate withArgs extra color bold italic underlined strikethrough
               obfuscated hoverEvent))))))))))))"

function asComponent :: "jv \<Rightarrow> component option"
  and asParts :: "jv list \<Rightarrow> part list option"
  and asTextContents :: "jv \<Rightarrow> textContents option"
  and asHoverEvent :: "jv \<Rightarrow> hoverEvent option"
where
  "asComponent c =
    (if \<not> truthy c \<or> typeof c \<noteq> ''object'' then None
     else
       buildComponent
         (asStringField (get c ''text''))
         (asStringField (get c ''translate''))
         (case get c ''with'' of
            None \<Rightarrow> Some None
          | Some (JArr xs) \<Rightarrow> map_option Some (asParts xs)
          | Some other \<Rightarrow> None)
         (case get c ''extra'' of
            None \<Rightarrow> Some None
          | Some (JArr xs) \<Rightarrow> map_option Some (asParts xs)
          | Some other \<Rightarrow> None)
         (asStringField (get c ''color''))
         (asBoolField (get c ''bold''))
         (asBoolField (get c ''italic''))
         (asBoolField (get c ''underlined''))
         (asBoolField (get c ''strikethrough''))
         (asBoolField (get c ''obfuscated''))
         (case get c ''hoverEvent'' of
            None \<Rightarrow> Some None
          | Some h \<Rightarrow> map_option Some (asHoverEvent h)))"
| "asParts [] = Some []"
| "asParts (x # xs) =
    consOption
      (if typeof x = ''string'' then (case x of JStr s \<Rightarrow> Some (PString s) | other \<Rightarrow> None)
       else map_option PComponent (asComponent x))
      (asParts xs)"
| "asTextContents JNull = None"
| "asTextContents (JBool b) = None"
| "asTextContents (JNum n) = None"
| "asTextContents (JStr s) = Some (TString s)"
| "asTextContents (JArr xs) = map_option TArray (asParts xs)"
| "asTextContents (JObj kvs) = map_option TComponent (asComponent (JObj kvs))"
| "asHoverEvent h =
    (case get h ''action'' of
       Some (JStr action) \<Rightarrow>
         if action = ''show_text'' then
           (case (if has h ''contents'' then get h ''contents'' else get h ''value'') of
              None \<Rightarrow> Some (ShowText None None)
            | Some v \<Rightarrow>
               map_option
                 (\<lambda>t. if has h ''contents'' then ShowText (Some t) None else ShowText None (Some t))
                 (asTextContents v))
         else if action = ''show_item'' then Some (ShowItem (get h ''contents'') (get h ''value''))
         else if action = ''show_entity'' then
           Some (ShowEntity (get h ''contents'') (get h ''value''))
         else None
     | other \<Rightarrow> None)"
  by pat_completeness auto

termination
  apply (relation "measure (\<lambda>x. case x of
          Inl (Inl c) \<Rightarrow> 2 * size c
        | Inl (Inr xs) \<Rightarrow> 2 * size_list size xs + 1
        | Inr (Inl v) \<Rightarrow> 2 * size v + 1
        | Inr (Inr h) \<Rightarrow> 2 * size h + 1)")
  apply (auto dest!: get_size split: if_splits)
  done

declare asComponent.simps [simp del]
declare asHoverEvent.simps [simp del]

section \<open>What the linkifier promises\<close>

text \<open>A match of the URL expression as a whole string: the scheme, then one character or more,
  none of them whitespace.\<close>

definition noSpace :: "string \<Rightarrow> bool" where
  "noSpace s = list_all (\<lambda>c. \<not> isSpace c) s"

definition isUrl :: "string \<Rightarrow> bool" where
  "isUrl u =
    ((startsWith u ''https://'' \<and> 8 < length u \<or> startsWith u ''http://'' \<and> 7 < length u)
     \<and> noSpace (drop 7 u))"

text \<open>A URL begins at the start of \<open>s\<close> when one of the prefixes of \<open>s\<close> is a URL.\<close>

definition urlBegins :: "string \<Rightarrow> bool" where
  "urlBegins s = (\<exists>n\<in>{..length s}. isUrl (take n s))"

definition isLinkFor :: "string \<Rightarrow> node \<Rightarrow> bool" where
  "isLinkFor u n = (n = Anchor u ''noopener noreferrer'' ''_blank'' [Text u])"

text \<open>A fragment of the linkifier's result is a text node that is not empty, or the link of a
  URL.\<close>

fun isFragment :: "node \<Rightarrow> bool" where
  "isFragment (Text t) = (t \<noteq> [])"
| "isFragment (Anchor href rel target children) =
     (isUrl href \<and> isLinkFor href (Anchor href rel target children))"
| "isFragment (Span classes color title children) = False"

text \<open>The text between two links, before the first and after the last is one node.\<close>

fun noAdjacentText :: "node list \<Rightarrow> bool" where
  "noAdjacentText (Text t # Text u # ns) = False"
| "noAdjacentText (n # ns) = noAdjacentText ns"
| "noAdjacentText [] = True"

text \<open>A link is the last fragment or is followed by text that starts with whitespace: the run
  it holds is as long as it can be.\<close>

fun linksEndAtSpace :: "node list \<Rightarrow> bool" where
  "linksEndAtSpace [] = True"
| "linksEndAtSpace [n] = True"
| "linksEndAtSpace (Anchor href rel target children # Text t # ns) =
     ((case t of [] \<Rightarrow> False | c # cs \<Rightarrow> isSpace c) \<and> linksEndAtSpace (Text t # ns))"
| "linksEndAtSpace (Anchor href rel target children # n # ns) = False"
| "linksEndAtSpace (m # n # ns) = linksEndAtSpace (n # ns)"

text \<open>Each fragment with the input from its first character on.\<close>

fun starts :: "string \<Rightarrow> node list \<Rightarrow> (string \<times> node) list" where
  "starts s [] = []"
| "starts s (n # ns) = (s, n) # starts (drop (length (textContent n)) s) ns"

text \<open>At no character of a text fragment does a URL begin in the input: a link starts at the
  first place where one can, reading on from the end of the link before.\<close>

fun holdsNoUrl :: "string \<times> node \<Rightarrow> bool" where
  "holdsNoUrl (s, Text t) = (\<forall>j\<in>{..<length t}. \<not> urlBegins (drop j s))"
| "holdsNoUrl (s, n) = True"

text \<open>The five conditions together.\<close>

definition isLinkification :: "string \<Rightarrow> node list \<Rightarrow> bool" where
  "isLinkification input ns =
    (concat (map textContent ns) = input
     \<and> list_all isFragment ns
     \<and> noAdjacentText ns
     \<and> linksEndAtSpace ns
     \<and> list_all holdsNoUrl (starts input ns))"

section \<open>Parts of a component\<close>

fun isSpan :: "node \<Rightarrow> bool" where
  "isSpan (Span classes color title children) = True"
| "isSpan n = False"

text \<open>The \<^verbatim>\<open>text\<close> property of a component.\<close>

fun componentText :: "component \<Rightarrow> string option" where
  "componentText (Component t tr w e c b i u s ob h) = t"

section \<open>Arguments of a substitution\<close>

text \<open>A numbered token is a percent sign, one digit or more, and \<^verbatim>\<open>$s\<close>; a sequential token
  is \<^verbatim>\<open>%s\<close>. A token begins at the start of \<open>s\<close> when one of the prefixes of \<open>s\<close> is a
  token.\<close>

definition isNumberedToken :: "string \<Rightarrow> bool" where
  "isNumberedToken t =
    (let ds = takeWhile isDigit (drop 1 t) in ds \<noteq> [] \<and> t = ''%'' @ ds @ ''$s'')"

definition numberedBegins :: "string \<Rightarrow> bool" where
  "numberedBegins s = (\<exists>n\<in>{..length s}. isNumberedToken (take n s))"

definition simpleBegins :: "string \<Rightarrow> bool" where
  "simpleBegins s = startsWith s ''%s''"

text \<open>At none of the first \<open>n\<close> characters of \<open>s\<close> does a token begin.\<close>

definition tokenFree :: "(string \<Rightarrow> bool) \<Rightarrow> nat \<Rightarrow> string \<Rightarrow> bool" where
  "tokenFree begins n s = (\<forall>j\<in>{..<n}. \<not> begins (drop j s))"

text \<open>An argument with the empty string taken for a missing one.\<close>

definition blank :: "part option \<Rightarrow> part option" where
  "blank v = (case v of Some (PString s) \<Rightarrow> if s = [] then None else v | other \<Rightarrow> other)"

text \<open>
  What the placeholder with the 1-based index \<open>n\<close> stands for, in the words of the
  specification: the argument it selects, or the literal token and a warning when the index is
  out of range or the argument is missing (or, as the code has it, the empty string).
  \<open>shown\<close> is the number the warning prints.
\<close>

definition placeholderValue ::
  "(component \<Rightarrow> node \<times> log_entry list) \<Rightarrow> part list \<Rightarrow> nat \<Rightarrow> int \<Rightarrow> string \<Rightarrow> string
    \<Rightarrow> node \<times> log_entry list" where
  "placeholderValue f args n shown token template =
    (if 1 \<le> n \<and> n \<le> length args \<and> args ! (n - 1) \<noteq> PString [] then
       (case args ! (n - 1) of PString s \<Rightarrow> (Text s, []) | PComponent c \<Rightarrow> f c)
     else
       (Text token,
        [Warn (''Missing argument '' @ showInt shown @ '' for template \"'' @ template @ ''\"'')]))"

section \<open>Inputs for the examples\<close>

text \<open>A table with no entry, and one with six templates.\<close>

definition emptyTable :: translation_table where
  "emptyTable key = None"

definition demoTable :: translation_table where
  "demoTable key =
    (if key = ''swap'' then Some (Template ''%2$s %1$s'')
     else if key = ''chat'' then Some (Template ''<%s> %s'')
     else if key = ''price'' then Some (Template ''$s %s'')
     else if key = ''hi'' then Some (Template ''hello'')
     else if key = ''percent'' then Some (Template ''%s%%'')
     else if key = ''mixed'' then Some (Template ''%1$s %s'')
     else None)"

text \<open>A string one character longer than the limit.\<close>

definition longText :: string where
  "longText = replicate 4097 CHR ''a''"

text \<open>A component that passes validation and whose tooltip cannot be computed: the item has a
  string \<^verbatim>\<open>value\<close>, so its \<^verbatim>\<open>contents\<close> are not checked, and the \<^verbatim>\<open>count\<close> there is an
  object with an own \<^verbatim>\<open>toString\<close> property.\<close>

definition trapValue :: jv where
  "trapValue =
     JObj [(''text'', JStr ''hello''),
           (''hoverEvent'',
            JObj [(''action'', JStr ''show_item''),
                  (''value'', JStr ''legacy''),
                  (''contents'',
                   JObj [(''id'', JStr ''a''), (''count'', JObj [(''toString'', JNum ''1'')])])])]"

definition trapComponent :: component where
  "trapComponent =
     Component (Some ''hello'') None None None None None None None None None
       (Some (ShowItem
          (Some (JObj [(''id'', JStr ''a''), (''count'', JObj [(''toString'', JNum ''1'')])]))
          (Some (JStr ''legacy''))))"

text \<open>Five components nested through \<^verbatim>\<open>extra\<close>: the innermost sits at a path of length 10.\<close>

definition nestExtra :: "jv \<Rightarrow> jv" where
  "nestExtra c = JObj [(''extra'', JArr [c])]"

definition deepExtra :: jv where
  "deepExtra =
     nestExtra (nestExtra (nestExtra (nestExtra (nestExtra (JObj [(''text'', JStr ''x'')])))))"

definition deepPath :: "string list" where
  "deepPath =
     [''extra'', ''0'', ''extra'', ''0'', ''extra'', ''0'', ''extra'', ''0'', ''extra'', ''0'']"

section \<open>The depth bound of the validator\<close>

lemma andThen_Inl: "andThen r k = Inl e \<longleftrightarrow> r = Inl e \<or> ((\<exists>u. r = Inr u) \<and> k = Inl e)"
  by (cases r) (auto simp: andThen_def)

lemma assertOwnFields_not_depth:
  "assertOwnFields c p \<noteq> Inl (ComponentError depthMessage q)"
  by (simp add: assertOwnFields_def depthMessage_def)

lemma showItem_not_depth:
  "assertIsShowItemHoverEvent h p \<noteq> Inl (ComponentError depthMessage q)"
  by (simp add: assertIsShowItemHoverEvent_def depthMessage_def split: option.splits)

lemma showEntity_not_depth:
  "assertIsShowEntityHoverEvent h p \<noteq> Inl (ComponentError depthMessage q)"
  by (simp add: assertIsShowEntityHoverEvent_def depthMessage_def split: option.splits)

lemma depth_error_paths:
  "assertIsComponent c p = Inl (ComponentError depthMessage q)
     \<longrightarrow> 8 < length q \<and> length q \<le> max (length p) 11"
  "assertEach xs pre i = Inl (ComponentError depthMessage q)
     \<longrightarrow> 8 < length q \<and> length q \<le> max (Suc (length pre)) 11"
  "assertIsHoverEvent h hp = Inl (ComponentError depthMessage q)
     \<longrightarrow> 8 < length q \<and> length q \<le> max (length hp + 2) 11"
  "assertIsShowTextHoverEvent t tp = Inl (ComponentError depthMessage q)
     \<longrightarrow> 8 < length q \<and> length q \<le> max (length tp + 2) 11"
proof (induction c p and xs pre i and h hp and t tp
    rule: assertIsComponent_assertEach_assertIsHoverEvent_assertIsShowTextHoverEvent.induct)
  case (1 component path)
  show ?case
  proof (cases "MAX_CHAT_DEPTH < length path")
    case True
    then show ?thesis
      by (auto simp: assertIsComponent.simps [of component path] MAX_CHAT_DEPTH_def)
  next
    case deep: False
    show ?thesis
    proof (cases "\<not> truthy component \<or> typeof component \<noteq> ''object''")
      case True
      with deep show ?thesis
        by (simp add: assertIsComponent.simps [of component path] depthMessage_def)
    next
      case obj: False
      have len: "length path \<le> 8" using deep by (simp add: MAX_CHAT_DEPTH_def)
      have ex: "(case get component ''extra'' of
                  None \<Rightarrow> Inr ()
                | Some (JArr xs) \<Rightarrow> assertEach xs (path @ [''extra'']) 0
                | Some other \<Rightarrow>
                    Inl (ComponentError ''Component.extra is not an array'' (path @ [''extra''])))
             = Inl (ComponentError depthMessage q) \<Longrightarrow> 8 < length q \<and> length q \<le> 11"
        using "1.IH"(1)[OF deep obj] len
        by (auto split: option.splits jv.splits simp: depthMessage_def)
      have wi: "(case get component ''with'' of
                  None \<Rightarrow> Inr ()
                | Some (JArr xs) \<Rightarrow> assertEach xs (path @ [''with'']) 0
                | Some other \<Rightarrow>
                    Inl (ComponentError ''Component.with is not an array'' (path @ [''with''])))
             = Inl (ComponentError depthMessage q) \<Longrightarrow> 8 < length q \<and> length q \<le> 11"
        using "1.IH"(2)[OF deep obj] len
        by (auto split: option.splits jv.splits simp: depthMessage_def)
      have ho: "(if has component ''hoverEvent''
                then assertIsHoverEvent (get component ''hoverEvent'') (path @ [''hoverEvent''])
                else Inr ()) = Inl (ComponentError depthMessage q)
             \<Longrightarrow> 8 < length q \<and> length q \<le> 11"
        using "1.IH"(3)[OF deep obj] len
        by (auto split: if_splits)
      show ?thesis
        using deep obj ex wi ho
        by (auto simp: assertIsComponent.simps [of component path] andThen_Inl
            assertOwnFields_not_depth)
    qed
  qed
next
  case (2 pre i)
  show ?case by simp
next
  case (3 component rest pre i)
  then show ?case
    by (auto simp: andThen_Inl)
next
  case (4 path)
  show ?case by (simp add: depthMessage_def)
next
  case (5 hoverEvent path)
  then show ?case
    by (auto simp: depthMessage_def showItem_not_depth [unfolded depthMessage_def]
        showEntity_not_depth [unfolded depthMessage_def]
        split: option.splits jv.splits if_splits)
next
  case (6 hoverEvent path)
  show ?case
  proof (cases "\<not> has hoverEvent ''contents'' \<and> \<not> has hoverEvent ''value''")
    case True
    then show ?thesis
      by (simp add: assertIsShowTextHoverEvent.simps [of hoverEvent path] depthMessage_def)
  next
    case some: False
    show ?thesis
    proof (cases "if has hoverEvent ''contents'' then get hoverEvent ''contents''
                  else get hoverEvent ''value''")
      case None
      with some show ?thesis
        by (auto simp: has_def split: if_splits)
    next
      case (Some v)
      show ?thesis
      proof (cases v)
        case JNull
        with "6.IH"(1) [OF some Some] some Some show ?thesis
          by (auto simp: assertIsShowTextHoverEvent.simps [of hoverEvent path] depthMessage_def)
      next
        case (JBool b)
        with "6.IH"(2) [OF some Some] some Some show ?thesis
          by (auto simp: assertIsShowTextHoverEvent.simps [of hoverEvent path] depthMessage_def)
      next
        case (JNum n)
        with "6.IH"(3) [OF some Some] some Some show ?thesis
          by (auto simp: assertIsShowTextHoverEvent.simps [of hoverEvent path] depthMessage_def)
      next
        case (JStr s)
        with some Some show ?thesis
          by (auto simp: assertIsShowTextHoverEvent.simps [of hoverEvent path] depthMessage_def)
      next
        case (JArr xs)
        with "6.IH"(4) [OF some Some] some Some show ?thesis
          by (auto simp: assertIsShowTextHoverEvent.simps [of hoverEvent path] depthMessage_def)
      next
        case (JObj kvs)
        with "6.IH"(5) [OF some Some] some Some show ?thesis
          by (auto simp: assertIsShowTextHoverEvent.simps [of hoverEvent path] depthMessage_def)
      qed
    qed
  qed
qed

lemma depth_error_node:
  "assertIsComponent c p = Inl (ComponentError depthMessage q) \<longrightarrow> (\<exists>v. nodeAt c p v q)"
  "assertEach xs pre i = Inl (ComponentError depthMessage q)
     \<longrightarrow> (\<exists>x px v. (x, px) \<in> set (entryNodes xs pre i) \<and> nodeAt x px v q)"
  "assertIsHoverEvent h hp = Inl (ComponentError depthMessage q)
     \<longrightarrow> (\<exists>x px v. (x, px) \<in> set (hoverNodes h hp) \<and> nodeAt x px v q)"
  "assertIsShowTextHoverEvent t tp = Inl (ComponentError depthMessage q)
     \<longrightarrow> (\<exists>x px v. (x, px) \<in> set (textNodes t tp) \<and> nodeAt x px v q)"
proof (induction c p and xs pre i and h hp and t tp
    rule: assertIsComponent_assertEach_assertIsHoverEvent_assertIsShowTextHoverEvent.induct)
  case (1 component path)
  show ?case
  proof (cases "MAX_CHAT_DEPTH < length path")
    case True
    have "nodeAt component path component path" by (rule nodeAt.root)
    with True show ?thesis
      by (auto simp: assertIsComponent.simps [of component path])
  next
    case deep: False
    show ?thesis
    proof (cases "\<not> truthy component \<or> typeof component \<noteq> ''object''")
      case True
      with deep show ?thesis
        by (simp add: assertIsComponent.simps [of component path] depthMessage_def)
    next
      case obj: False
      have ex: "(case get component ''extra'' of
                  None \<Rightarrow> Inr ()
                | Some (JArr xs) \<Rightarrow> assertEach xs (path @ [''extra'']) 0
                | Some other \<Rightarrow>
                    Inl (ComponentError ''Component.extra is not an array'' (path @ [''extra''])))
             = Inl (ComponentError depthMessage q)
           \<Longrightarrow> \<exists>x px v. (x, px) \<in> set (arrayNodes (get component ''extra'') (path @ [''extra'']))
                  \<and> nodeAt x px v q"
        using "1.IH"(1)[OF deep obj]
        by (auto split: option.splits jv.splits simp: depthMessage_def arrayNodes_def)
      have wi: "(case get component ''with'' of
                  None \<Rightarrow> Inr ()
                | Some (JArr xs) \<Rightarrow> assertEach xs (path @ [''with'']) 0
                | Some other \<Rightarrow>
                    Inl (ComponentError ''Component.with is not an array'' (path @ [''with''])))
             = Inl (ComponentError depthMessage q)
           \<Longrightarrow> \<exists>x px v. (x, px) \<in> set (arrayNodes (get component ''with'') (path @ [''with'']))
                  \<and> nodeAt x px v q"
        using "1.IH"(2)[OF deep obj]
        by (auto split: option.splits jv.splits simp: depthMessage_def arrayNodes_def)
      have ho: "(if has component ''hoverEvent''
                then assertIsHoverEvent (get component ''hoverEvent'') (path @ [''hoverEvent''])
                else Inr ()) = Inl (ComponentError depthMessage q)
           \<Longrightarrow> \<exists>x px v. (x, px) \<in> set (hoverNodes (get component ''hoverEvent'')
                                            (path @ [''hoverEvent'']))
                  \<and> nodeAt x px v q"
        using "1.IH"(3)[OF deep obj]
        by (auto split: if_splits)
      have child: "\<exists>x px v. (x, px) \<in> set (childNodes component path) \<and> nodeAt x px v q"
        if "assertIsComponent component path = Inl (ComponentError depthMessage q)"
        using that deep obj ex wi ho
        by (auto simp: assertIsComponent.simps [of component path] andThen_Inl
            assertOwnFields_not_depth childNodes_def)
      show ?thesis
      proof
        assume "assertIsComponent component path = Inl (ComponentError depthMessage q)"
        from child [OF this] obtain x px v
          where "(x, px) \<in> set (childNodes component path)" and "nodeAt x px v q" by blast
        then have "nodeAt component path v q" by (rule nodeAt.nested)
        then show "\<exists>v. nodeAt component path v q" ..
      qed
    qed
  qed
next
  case (2 pre i)
  show ?case by simp
next
  case (3 component rest pre i)
  then show ?case
    by (auto simp: andThen_Inl)
next
  case (4 path)
  show ?case by (simp add: depthMessage_def)
next
  case (5 hoverEvent path)
  have same: "get hoverEvent ''action'' = Some (JStr ''show_text'')
      \<Longrightarrow> hoverNodes (Some hoverEvent) path = textNodes hoverEvent path"
    by (simp add: hoverNodes_def textNodes_def)
  from 5 same show ?case
    by (auto simp: depthMessage_def showItem_not_depth [unfolded depthMessage_def]
        showEntity_not_depth [unfolded depthMessage_def]
        split: option.splits jv.splits if_splits)
next
  case (6 hoverEvent path)
  show ?case
  proof (cases "\<not> has hoverEvent ''contents'' \<and> \<not> has hoverEvent ''value''")
    case True
    then show ?thesis
      by (simp add: assertIsShowTextHoverEvent.simps [of hoverEvent path] depthMessage_def)
  next
    case some: False
    show ?thesis
    proof (cases "if has hoverEvent ''contents'' then get hoverEvent ''contents''
                  else get hoverEvent ''value''")
      case None
      with some show ?thesis
        by (auto simp: has_def split: if_splits)
    next
      case (Some v)
      have root: "nodeAt v (path @ [''contents'']) w q \<Longrightarrow> \<forall>s. v \<noteq> JStr s \<Longrightarrow> \<forall>xs. v \<noteq> JArr xs
          \<Longrightarrow> \<exists>x px w. (x, px) \<in> set (textNodes hoverEvent path) \<and> nodeAt x px w q" for w
        using Some by (cases v) (auto simp: textNodes_def)
      show ?thesis
      proof (cases v)
        case JNull
        with "6.IH"(1) [OF some Some] some Some root show ?thesis
          by (auto simp: assertIsShowTextHoverEvent.simps [of hoverEvent path] depthMessage_def)
      next
        case (JBool b)
        with "6.IH"(2) [OF some Some] some Some root show ?thesis
          by (auto simp: assertIsShowTextHoverEvent.simps [of hoverEvent path] depthMessage_def)
      next
        case (JNum n)
        with "6.IH"(3) [OF some Some] some Some root show ?thesis
          by (auto simp: assertIsShowTextHoverEvent.simps [of hoverEvent path] depthMessage_def)
      next
        case (JStr s)
        with some Some show ?thesis
          by (auto simp: assertIsShowTextHoverEvent.simps [of hoverEvent path] depthMessage_def)
      next
        case (JArr xs)
        with "6.IH"(4) [OF some Some] some Some show ?thesis
          by (auto simp: assertIsShowTextHoverEvent.simps [of hoverEvent path] depthMessage_def
              textNodes_def)
      next
        case (JObj kvs)
        with "6.IH"(5) [OF some Some] some Some root show ?thesis
          by (auto simp: assertIsShowTextHoverEvent.simps [of hoverEvent path] depthMessage_def)
      qed
    qed
  qed
qed

lemma andThen_fails:
  "(\<exists>e. r = Inl e) \<or> (\<exists>e. k = Inl e) \<Longrightarrow> \<exists>e. andThen r k = Inl e"
  by (cases r) (auto simp: andThen_def)

lemma entry_fails:
  "(c', p') \<in> set (entryNodes xs pre i) \<Longrightarrow> assertIsComponent c' p' = Inl e'
     \<Longrightarrow> \<exists>e. assertEach xs pre i = Inl e"
proof (induction xs arbitrary: i)
  case Nil
  then show ?case by simp
next
  case (Cons x xs)
  show ?case
  proof (cases "typeof x = ''string''")
    case True
    with Cons show ?thesis by simp
  next
    case False
    show ?thesis
    proof (cases "(c', p') = (x, pre @ [showNat i])")
      case True
      with False Cons.prems(2) show ?thesis by (simp add: andThen_def)
    next
      case other: False
      with False Cons.prems(1) have "(c', p') \<in> set (entryNodes xs pre (Suc i))" by auto
      from Cons.IH [OF this Cons.prems(2)] False show ?thesis
        by (simp add: andThen_fails)
    qed
  qed
qed

lemma array_fails:
  assumes "(c', p') \<in> set (arrayNodes (get c k) pre)" and "assertIsComponent c' p' = Inl e'"
  shows "\<exists>e. (case get c k of
                  None \<Rightarrow> Inr ()
                | Some (JArr xs) \<Rightarrow> assertEach xs pre 0
                | Some other \<Rightarrow> Inl (ComponentError msg pre)) = Inl e"
proof (cases "get c k")
  case None
  with assms(1) show ?thesis by (simp add: arrayNodes_def)
next
  case (Some x)
  show ?thesis
  proof (cases x)
    case (JArr xs)
    with Some assms(1) have "(c', p') \<in> set (entryNodes xs pre 0)" by (simp add: arrayNodes_def)
    from entry_fails [OF this assms(2)] Some JArr show ?thesis by simp
  qed (use Some in simp_all)
qed

lemma chain_fails:
  "(\<exists>e. r2 = Inl e) \<or> (\<exists>e. r3 = Inl e) \<or> (\<exists>e. r4 = Inl e)
    \<Longrightarrow> \<exists>e. andThen r1 (andThen r2 (andThen r3 r4)) = Inl e"
  by (cases r1; cases r2; cases r3) (auto simp: andThen_def)

lemma showText_fails:
  assumes n: "(c', p') \<in> set (hoverNodes (Some h) pre)" and f: "assertIsComponent c' p' = Inl e'"
  shows "\<exists>e. assertIsHoverEvent (Some h) pre = Inl e"
proof -
  from n have a: "get h ''action'' = Some (JStr ''show_text'')"
    by (cases "get h ''action'' = Some (JStr ''show_text'')")
       (simp_all add: hoverNodes_def textNodes_def)
  then have obj: "truthy h \<and> typeof h = ''object''" by (cases h) auto
  define v where "v = (if has h ''contents'' then get h ''contents'' else get h ''value'')"
  from n a have nv: "(c', p') \<in> set (case v of
             None \<Rightarrow> []
           | Some (JStr s) \<Rightarrow> []
           | Some (JArr xs) \<Rightarrow> entryNodes xs (pre @ [''contents'']) 0
           | Some x \<Rightarrow> [(x, pre @ [''contents''])])"
    by (simp add: hoverNodes_def textNodes_def v_def)
  have "\<exists>e. assertIsShowTextHoverEvent h pre = Inl e"
  proof (cases "\<not> has h ''contents'' \<and> \<not> has h ''value''")
    case True
    then show ?thesis by (simp add: assertIsShowTextHoverEvent.simps [of h pre])
  next
    case some: False
    show ?thesis
    proof (cases v)
      case None
      with nv show ?thesis by simp
    next
      case (Some x)
      show ?thesis
      proof (cases x)
        case (JArr xs)
        with nv Some have "(c', p') \<in> set (entryNodes xs (pre @ [''contents'']) 0)" by simp
        from entry_fails [OF this f] some Some JArr show ?thesis
          by (simp add: assertIsShowTextHoverEvent.simps [of h pre] v_def)
      next
        case (JStr s)
        with nv Some show ?thesis by simp
      next
        case JNull
        with nv Some f some show ?thesis
          by (simp add: assertIsShowTextHoverEvent.simps [of h pre] v_def)
      next
        case (JBool b)
        with nv Some f some show ?thesis
          by (simp add: assertIsShowTextHoverEvent.simps [of h pre] v_def)
      next
        case (JNum n)
        with nv Some f some show ?thesis
          by (simp add: assertIsShowTextHoverEvent.simps [of h pre] v_def)
      next
        case (JObj kvs)
        with nv Some f some show ?thesis
          by (simp add: assertIsShowTextHoverEvent.simps [of h pre] v_def)
      qed
    qed
  qed
  with a obj show ?thesis by (simp add: VALID_HOVER_EVENTS_def)
qed

lemma child_fails:
  assumes n: "(c', p') \<in> set (childNodes c p)" and f: "assertIsComponent c' p' = Inl e'"
  shows "\<exists>e. assertIsComponent c p = Inl e"
proof (cases "MAX_CHAT_DEPTH < length p \<or> \<not> truthy c \<or> typeof c \<noteq> ''object''")
  case True
  then show ?thesis by (auto simp: assertIsComponent.simps [of c p])
next
  case False
  from n consider
      (extra) "(c', p') \<in> set (arrayNodes (get c ''extra'') (p @ [''extra'']))"
    | (withArgs) "(c', p') \<in> set (arrayNodes (get c ''with'') (p @ [''with'']))"
    | (hover) "(c', p') \<in> set (hoverNodes (get c ''hoverEvent'') (p @ [''hoverEvent'']))"
    by (auto simp: childNodes_def)
  then have "\<exists>e. andThen (assertOwnFields c p)
      (andThen (case get c ''extra'' of
                  None \<Rightarrow> Inr ()
                | Some (JArr xs) \<Rightarrow> assertEach xs (p @ [''extra'']) 0
                | Some other \<Rightarrow>
                    Inl (ComponentError ''Component.extra is not an array'' (p @ [''extra''])))
      (andThen (case get c ''with'' of
                  None \<Rightarrow> Inr ()
                | Some (JArr xs) \<Rightarrow> assertEach xs (p @ [''with'']) 0
                | Some other \<Rightarrow>
                    Inl (ComponentError ''Component.with is not an array'' (p @ [''with''])))
               (if has c ''hoverEvent''
                then assertIsHoverEvent (get c ''hoverEvent'') (p @ [''hoverEvent''])
                else Inr ()))) = Inl e"
  proof cases
    case extra
    have "\<exists>e. (case get c ''extra'' of
                  None \<Rightarrow> Inr ()
                | Some (JArr xs) \<Rightarrow> assertEach xs (p @ [''extra'']) 0
                | Some other \<Rightarrow>
                    Inl (ComponentError ''Component.extra is not an array'' (p @ [''extra'']))) = Inl e"
      by (rule array_fails [OF extra f])
    then show ?thesis by (rule chain_fails [OF disjI1])
  next
    case withArgs
    have "\<exists>e. (case get c ''with'' of
                  None \<Rightarrow> Inr ()
                | Some (JArr xs) \<Rightarrow> assertEach xs (p @ [''with'']) 0
                | Some other \<Rightarrow>
                    Inl (ComponentError ''Component.with is not an array'' (p @ [''with'']))) = Inl e"
      by (rule array_fails [OF withArgs f])
    then show ?thesis by (rule chain_fails [OF disjI2 [OF disjI1]])
  next
    case hover
    have "get c ''hoverEvent'' \<noteq> None"
    proof
      assume "get c ''hoverEvent'' = None"
      with hover show False by (simp add: hoverNodes_def textNodes_def)
    qed
    then obtain h where h: "get c ''hoverEvent'' = Some h" by blast
    with hover showText_fails [of c' p' h "p @ [''hoverEvent'']" e'] f
    have "\<exists>e. (if has c ''hoverEvent''
                then assertIsHoverEvent (get c ''hoverEvent'') (p @ [''hoverEvent''])
                else Inr ()) = Inl e"
      by (simp add: has_def)
    then show ?thesis by (rule chain_fails [OF disjI2 [OF disjI2]])
  qed
  with False show ?thesis by (simp add: assertIsComponent.simps [of c p])
qed

lemma deep_node_fails:
  "nodeAt c p v q \<Longrightarrow> MAX_CHAT_DEPTH < length q \<Longrightarrow> \<exists>e. assertIsComponent c p = Inl e"
proof (induction rule: nodeAt.induct)
  case (root c p)
  then show ?case by (simp add: assertIsComponent.simps [of c p])
next
  case (nested c' p' c p v q)
  from nested.IH [OF nested.prems] obtain e' where "assertIsComponent c' p' = Inl e'" by blast
  from child_fails [OF nested.hyps(1) this] show ?case .
qed

lemma deepExtra_fails:
  "assertIsComponent deepExtra [] = Inl (ComponentError depthMessage deepPath)"
  by (simp add: deepExtra_def deepPath_def nestExtra_def assertIsComponent.simps
      MAX_CHAT_DEPTH_def has_def typeofProp_def assertOwnFields_def andThen_def showNat.simps
      digitChar_def)

lemma nest_node:
  "typeof c \<noteq> ''string'' \<Longrightarrow> nodeAt c (p @ [''extra'', ''0'']) v q \<Longrightarrow> nodeAt (nestExtra c) p v q"
  by (rule nodeAt.nested [of c "p @ [''extra'', ''0'']"])
     (simp_all add: childNodes_def arrayNodes_def hoverNodes_def textNodes_def nestExtra_def
        showNat.simps
        digitChar_def)

lemma deepExtra_node: "nodeAt deepExtra [] (JObj [(''text'', JStr ''x'')]) deepPath"
  unfolding deepExtra_def
  by (intro nest_node) (simp_all add: nestExtra_def deepPath_def nodeAt.root)

text \<open>
  C2, as stated, fails: the tree \<open>deepExtra\<close> has a node deeper than 8 and validation fails
  at the first node beyond the bound, but the path cited has length 10, not 9.
\<close>

theorem C2_counterexample:
  "nodeAt deepExtra [] (JObj [(''text'', JStr ''x'')]) deepPath
   \<and> assertIsComponent deepExtra [] = Inl (ComponentError depthMessage deepPath)
   \<and> length deepPath = 10"
  using deepExtra_fails deepExtra_node by (simp add: deepPath_def)

text \<open>
  C2, amended: a tree that holds a component at a path longer than 8 fails validation;
  validation of any value at a path longer than 8 fails with the depth error citing that very
  path, whatever the value is, so before any type check at that depth; and a depth error of a
  validation started at the root cites a path of length 9, 10 or 11, since a nesting level
  lengthens the path by 2 or 3, and this path is the path of a node of the tree.
\<close>

theorem C2_depth_bound:
  "(nodeAt c [] v q \<and> MAX_CHAT_DEPTH < length q \<longrightarrow> (\<exists>e. assertIsComponent c [] = Inl e))
   \<and> (MAX_CHAT_DEPTH < length path \<longrightarrow>
      assertIsComponent c path = Inl (ComponentError depthMessage path))
   \<and> (assertIsComponent c [] = Inl (ComponentError depthMessage q') \<longrightarrow>
      9 \<le> length q' \<and> length q' \<le> 11 \<and> (\<exists>v'. nodeAt c [] v' q'))"
proof -
  have a: "nodeAt c [] v q \<and> MAX_CHAT_DEPTH < length q \<longrightarrow>
      (\<exists>e. assertIsComponent c [] = Inl e)"
    using deep_node_fails [of c "[]" v q] by simp
  have b: "MAX_CHAT_DEPTH < length path \<longrightarrow>
      assertIsComponent c path = Inl (ComponentError depthMessage path)"
    by (simp add: assertIsComponent.simps [of c path])
  have d: "assertIsComponent c [] = Inl (ComponentError depthMessage q') \<longrightarrow>
      9 \<le> length q' \<and> length q' \<le> 11 \<and> (\<exists>v'. nodeAt c [] v' q')"
    using depth_error_paths(1) [of c "[]" q'] depth_error_node(1) [of c "[]" q'] by auto
  show ?thesis by (rule conjI [OF a conjI [OF b d]])
qed

theorem C2_depth_bound_witness:
  "nodeAt deepExtra [] (JObj [(''text'', JStr ''x'')]) deepPath
   \<and> MAX_CHAT_DEPTH < length deepPath
   \<and> (\<exists>e. assertIsComponent deepExtra [] = Inl e)
   \<and> assertIsComponent deepExtra deepPath = Inl (ComponentError depthMessage deepPath)
   \<and> assertIsComponent deepExtra [] = Inl (ComponentError depthMessage deepPath)
   \<and> 9 \<le> length deepPath \<and> length deepPath \<le> 11"
proof -
  have l: "MAX_CHAT_DEPTH < length deepPath" by (simp add: MAX_CHAT_DEPTH_def deepPath_def)
  from C2_depth_bound [of deepExtra "JObj [(''text'', JStr ''x'')]" deepPath deepPath deepPath]
    deepExtra_node deepExtra_fails l
  show ?thesis by simp
qed

section \<open>The linkifier\<close>

lemma exec_least:
  "exec at s = Some (i, m) \<Longrightarrow> j < i \<Longrightarrow> at (drop j s) = None"
proof (induction s arbitrary: i j)
  case Nil
  then show ?case by (auto split: option.splits)
next
  case (Cons c cs)
  show ?case
  proof (cases "at (c # cs)")
    case None
    with Cons.prems obtain i' where e: "exec at cs = Some (i', m)" and i: "i = Suc i'"
      by (auto split: option.splits)
    show ?thesis
    proof (cases j)
      case 0
      with None show ?thesis by simp
    next
      case (Suc j')
      with Cons.IH [OF e, of j'] Cons.prems(2) i show ?thesis by simp
    qed
  next
    case (Some a)
    with Cons.prems show ?thesis by simp
  qed
qed

lemma exec_None_I:
  "(\<And>j. j \<le> length s \<Longrightarrow> at (drop j s) = None) \<Longrightarrow> exec at s = None"
proof (induction s)
  case Nil
  from Nil [of 0] show ?case by simp
next
  case (Cons c cs)
  from Cons.prems [of 0] have h: "at (c # cs) = None" by simp
  have "exec at cs = None"
  proof (rule Cons.IH)
    fix j assume "j \<le> length cs"
    with Cons.prems [of "Suc j"] show "at (drop j cs) = None" by simp
  qed
  with h show ?case by simp
qed

lemma urlAt_Nil: "urlAt [] = None"
  by (simp add: urlAt_def startsWith_def)

lemma urlAt_space: "isSpace c \<Longrightarrow> urlAt (c # cs) = None"
  by (auto simp: urlAt_def startsWith_def isSpace_def)

lemma urlAt_isUrl:
  assumes "urlAt s = Some (m, g)"
  shows "isUrl m \<and> (drop (length m) s = [] \<or> isSpace (hd (drop (length m) s)))"
proof -
  have tail: "drop (length (p @ takeWhile P (drop n s))) s = dropWhile P (drop n s)"
    if "take n s = p" "length p = n" for p n P
  proof -
    have "s = take n s @ drop n s" by simp
    also have "drop n s = takeWhile P (drop n s) @ dropWhile P (drop n s)" by simp
    finally have "s = (p @ takeWhile P (drop n s)) @ dropWhile P (drop n s)"
      using that(1) by simp
    then show ?thesis by (metis append_eq_conv_conj)
  qed
  have sp: "dropWhile (\<lambda>c. \<not> isSpace c) xs = [] \<or> isSpace (hd (dropWhile (\<lambda>c. \<not> isSpace c) xs))"
    for xs
    using hd_dropWhile [of "\<lambda>c. \<not> isSpace c" xs] by blast
  have all: "list_all (\<lambda>c. \<not> isSpace c) (takeWhile (\<lambda>c. \<not> isSpace c) xs)" for xs
    by (induction xs) auto
  show ?thesis
  proof (cases "startsWith s ''https://'' \<and> takeWhile (\<lambda>c. \<not> isSpace c) (drop 8 s) \<noteq> []")
    case True
    then have m: "m = ''https://'' @ takeWhile (\<lambda>c. \<not> isSpace c) (drop 8 s)"
      using assms by (auto simp: urlAt_def Let_def)
    from True have t: "take 8 s = ''https://''" by (simp add: startsWith_def eval_nat_numeral)
    have "isUrl m"
      using True all [of "drop 8 s"]
      by (cases "takeWhile (\<lambda>c. \<not> isSpace c) (drop 8 s)")
         (simp_all add: m isUrl_def noSpace_def startsWith_def isSpace_def)
    moreover from tail [OF t, of "\<lambda>c. \<not> isSpace c"] sp [of "drop 8 s"]
    have "drop (length m) s = [] \<or> isSpace (hd (drop (length m) s))" by (simp add: m)
    ultimately show ?thesis by simp
  next
    case False
    then have h: "startsWith s ''http://''"
      and ne: "takeWhile (\<lambda>c. \<not> isSpace c) (drop 7 s) \<noteq> []"
      and m: "m = ''http://'' @ takeWhile (\<lambda>c. \<not> isSpace c) (drop 7 s)"
      using assms by (auto simp: urlAt_def Let_def split: if_splits)
    from h have t: "take 7 s = ''http://''" by (simp add: startsWith_def eval_nat_numeral)
    have "isUrl m"
      using ne all [of "drop 7 s"]
      by (cases "takeWhile (\<lambda>c. \<not> isSpace c) (drop 7 s)")
         (simp_all add: m isUrl_def noSpace_def startsWith_def)
    moreover from tail [OF t, of "\<lambda>c. \<not> isSpace c"] sp [of "drop 7 s"]
    have "drop (length m) s = [] \<or> isSpace (hd (drop (length m) s))" by (simp add: m)
    ultimately show ?thesis by simp
  qed
qed

lemma linkifyFrom_Nil: "linkifyFrom [] = []"
  by (simp add: linkifyFrom.simps [of "[]"] urlAt_Nil)

lemma linkifyFrom_space:
  assumes "isSpace c"
  shows "\<exists>t ns. linkifyFrom (c # cs) = Text (c # t) # ns"
proof (cases "exec urlAt cs")
  case None
  with urlAt_space [OF assms] show ?thesis
    by (simp add: linkifyFrom.simps [of "c # cs"])
next
  case (Some r)
  obtain i m g where "r = (i, m, g)" by (cases r) auto
  with Some urlAt_space [OF assms] show ?thesis
    by (simp add: linkifyFrom.simps [of "c # cs"])
qed

lemma linksEndAtSpace_Text: "linksEndAtSpace (Text t # ns) = linksEndAtSpace ns"
  by (cases ns) simp_all

lemma exec_None_D:
  "exec at s = None \<Longrightarrow> j \<le> length s \<Longrightarrow> at (drop j s) = None"
proof (induction s arbitrary: j)
  case Nil
  then show ?case by (auto split: option.splits)
next
  case (Cons c cs)
  from Cons.prems(1) have h: "at (c # cs) = None" and e: "exec at cs = None"
    by (auto split: option.splits)
  show ?case
  proof (cases j)
    case 0
    with h show ?thesis by simp
  next
    case (Suc j')
    with Cons.IH [OF e, of j'] Cons.prems(2) show ?thesis by simp
  qed
qed

lemma exec_at_first:
  assumes "\<And>j. j < length t \<Longrightarrow> at (drop j (t @ s)) = None" and "at s = Some m"
  shows "exec at (t @ s) = Some (length t, m)"
  using assms
proof (induction t)
  case Nil
  then show ?case by (cases s) simp_all
next
  case (Cons c t)
  from Cons.prems(1) [of 0] have h: "at (c # t @ s) = None" by simp
  have "exec at (t @ s) = Some (length t, m)"
  proof (rule Cons.IH)
    fix j assume "j < length t"
    with Cons.prems(1) [of "Suc j"] show "at (drop j (t @ s)) = None" by simp
  qed (rule Cons.prems(2))
  with h show ?case by simp
qed

lemma takeWhile_nonempty: "takeWhile P xs \<noteq> [] \<longleftrightarrow> (case xs of [] \<Rightarrow> False | c # cs \<Rightarrow> P c)"
  by (cases xs) auto

lemma urlAt_iff:
  "urlAt s \<noteq> None \<longleftrightarrow>
     startsWith s ''https://'' \<and> (case drop 8 s of [] \<Rightarrow> False | c # cs \<Rightarrow> \<not> isSpace c)
     \<or> startsWith s ''http://'' \<and> (case drop 7 s of [] \<Rightarrow> False | c # cs \<Rightarrow> \<not> isSpace c)"
  by (auto simp: urlAt_def Let_def takeWhile_nonempty)

lemma startsWith_take:
  "length p \<le> n \<Longrightarrow> startsWith (take n s) p = startsWith s p"
  by (simp add: startsWith_def min_def)

lemma urlBegins_iff: "urlBegins s \<longleftrightarrow> urlAt s \<noteq> None"
proof
  assume "urlBegins s"
  then obtain n where n: "n \<le> length s" and u: "isUrl (take n s)"
    by (auto simp: urlBegins_def)
  have at: "k < n \<Longrightarrow> 7 \<le> k \<Longrightarrow> (case drop k s of [] \<Rightarrow> False | c # cs \<Rightarrow> \<not> isSpace c)" for k
  proof -
    assume k: "k < n" "7 \<le> k"
    with n have ks: "k < length s" by simp
    from u have "noSpace (drop 7 (take n s))" by (simp add: isUrl_def)
    moreover have "s ! k \<in> set (drop 7 (take n s))"
    proof -
      have "drop 7 (take n s) ! (k - 7) = s ! k" using k n by simp
      moreover have "k - 7 < length (drop 7 (take n s))" using k n by simp
      ultimately show ?thesis by (metis nth_mem)
    qed
    ultimately have "\<not> isSpace (s ! k)" by (simp add: noSpace_def list_all_iff)
    moreover from ks have "drop k s = s ! k # drop (Suc k) s" by (simp add: Cons_nth_drop_Suc)
    ultimately show ?thesis by simp
  qed
  from u n have "startsWith (take n s) ''https://'' \<and> 8 < n \<or> startsWith (take n s) ''http://'' \<and> 7 < n"
    by (auto simp: isUrl_def min_def split: if_splits)
  then show "urlAt s \<noteq> None"
  proof
    assume a: "startsWith (take n s) ''https://'' \<and> 8 < n"
    then have "startsWith s ''https://''" using startsWith_take [of "''https://''" n s] by simp
    with at [of 8] a show ?thesis unfolding urlAt_iff by simp
  next
    assume a: "startsWith (take n s) ''http://'' \<and> 7 < n"
    then have "startsWith s ''http://''" using startsWith_take [of "''http://''" n s] by simp
    with at [of 7] a show ?thesis unfolding urlAt_iff by simp
  qed
next
  assume "urlAt s \<noteq> None"
  then obtain m g where a: "urlAt s = Some (m, g)" by auto
  from urlAt_Some [OF a] urlAt_isUrl [OF a]
  have "length m \<le> length s" and "isUrl (take (length m) s)" by simp_all
  then show "urlBegins s" by (auto simp: urlBegins_def)
qed

lemma not_urlBegins: "\<not> urlBegins s \<Longrightarrow> urlAt s = None"
  using urlBegins_iff [of s] by blast

lemma startsWith_D: "startsWith s p \<Longrightarrow> s = p @ drop (length p) s"
  unfolding startsWith_def by (metis append_take_drop_id)

lemma takeWhile_run:
  "list_all P v \<Longrightarrow> r = [] \<or> \<not> P (hd r) \<Longrightarrow> takeWhile P (v @ r) = v"
  by (induction v) (auto simp: takeWhile_eq_Nil_iff intro: hd_in_set dest: hd_in_set)

lemma isUrl_urlAt:
  assumes u: "isUrl u" and r: "r = [] \<or> isSpace (hd r)"
  shows "urlAt (u @ r) = Some (u, u)"
proof -
  from u have ns: "noSpace (drop 7 u)" by (simp add: isUrl_def)
  from u have "startsWith u ''https://'' \<and> 8 < length u \<or> startsWith u ''http://'' \<and> 7 < length u"
    by (simp add: isUrl_def)
  then show ?thesis
  proof
    assume a: "startsWith u ''https://'' \<and> 8 < length u"
    define v where "v = drop 8 u"
    from a startsWith_D [of u "''https://''"] have uv: "u = ''https://'' @ v"
      by (simp add: v_def eval_nat_numeral)
    from a have v: "v \<noteq> []" by (simp add: v_def)
    from ns have "list_all (\<lambda>c. \<not> isSpace c) v" by (simp add: uv noSpace_def)
    from takeWhile_run [OF this, of r] r
    have t: "takeWhile (\<lambda>c. \<not> isSpace c) (v @ r) = v" by simp
    show ?thesis
      using v t by (simp add: uv urlAt_def startsWith_def Let_def)
  next
    assume a: "startsWith u ''http://'' \<and> 7 < length u"
    define v where "v = drop 7 u"
    from a startsWith_D [of u "''http://''"] have uv: "u = ''http://'' @ v"
      by (simp add: v_def eval_nat_numeral)
    from a have v: "v \<noteq> []" by (simp add: v_def)
    from ns have "list_all (\<lambda>c. \<not> isSpace c) v" by (simp add: uv noSpace_def)
    from takeWhile_run [OF this, of r] r
    have t: "takeWhile (\<lambda>c. \<not> isSpace c) (v @ r) = v" by simp
    show ?thesis
      using v t by (simp add: uv urlAt_def startsWith_def Let_def)
  qed
qed

lemma noAdjacentText_tl: "noAdjacentText (n # ns) \<Longrightarrow> noAdjacentText ns"
  by (induction "n # ns" arbitrary: n ns rule: noAdjacentText.induct) simp_all

lemma linksEndAtSpace_tl: "linksEndAtSpace (n # ns) \<Longrightarrow> linksEndAtSpace ns"
  by (induction "n # ns" arbitrary: n ns rule: linksEndAtSpace.induct) simp_all

lemma isLinkification_tl:
  assumes "isLinkification s (n # ns)"
  shows "s = textContent n @ concat (map textContent ns)
       \<and> isLinkification (concat (map textContent ns)) ns"
proof -
  from assms have c: "textContent n @ concat (map textContent ns) = s"
    by (simp add: isLinkification_def)
  then have d: "drop (length (textContent n)) s = concat (map textContent ns)" by auto
  from assms noAdjacentText_tl [of n ns] linksEndAtSpace_tl [of n ns] d c show ?thesis
    by (simp add: isLinkification_def)
qed

lemma linkifyFrom_sound: "isLinkification rest (linkifyFrom rest)"
proof (induction rest rule: linkifyFrom.induct)
  case (1 rest)
  show ?case
  proof (cases "exec urlAt rest")
    case None
    have "\<not> urlBegins (drop j rest)" if "j < length rest" for j
      using exec_None_D [OF None, of j] that by (simp add: urlBegins_iff)
    with None show ?thesis
      by (simp add: linkifyFrom.simps [of rest] isLinkification_def)
  next
    case (Some r)
    obtain i url g where r: "r = (i, url, g)" by (cases r) auto
    with Some have e: "exec urlAt rest = Some (i, url, g)" by simp
    from exec_Some [OF e] have a: "urlAt (drop i rest) = Some (url, g)" and i: "i \<le> length rest"
      by simp_all
    from urlAt_Some [OF a] have ne: "url \<noteq> []" and tk: "take (length url) (drop i rest) = url"
      and g: "g = url" by simp_all
    from urlAt_isUrl [OF a] have u: "isUrl url"
      and after: "drop (length url) (drop i rest) = []
                  \<or> isSpace (hd (drop (length url) (drop i rest)))" by simp_all
    define rest' where "rest' = drop (i + length url) rest"
    have r': "drop (length url) (drop i rest) = rest'" by (simp add: rest'_def add.commute)
    have after': "rest' = [] \<or> isSpace (hd rest')" using after unfolding r' .
    from "1.IH" [OF e [unfolded g] refl refl, folded rest'_def, folded g]
    have ih: "isLinkification rest' (linkifyFrom rest')" .
    then have ih1: "concat (map textContent (linkifyFrom rest')) = rest'"
      and ih2: "list_all isFragment (linkifyFrom rest')"
      and ih3: "linksEndAtSpace (linkifyFrom rest')"
      and ih4: "noAdjacentText (linkifyFrom rest')"
      and ih5: "list_all holdsNoUrl (starts rest' (linkifyFrom rest'))"
      by (simp_all add: isLinkification_def)
    have unf: "linkifyFrom rest =
        (if 0 < i then [Text (take i rest)] else []) @ [createLink url] @ linkifyFrom rest'"
      using e g by (simp add: linkifyFrom.simps [of rest] rest'_def)
    have link: "createLink url = Anchor url ''noopener noreferrer'' ''_blank'' [Text url]"
      using ne by (simp add: createLink_def)
    have split: "take i rest @ url @ rest' = rest"
      by (metis append_take_drop_id tk r')
    have c1: "concat (map textContent (linkifyFrom rest)) = rest"
      using ih1 split by (cases "i = 0") (simp_all add: unf link)
    have pre: "0 < i \<Longrightarrow> take i rest \<noteq> []"
      using i by (cases rest) auto
    have c2: "list_all isFragment (linkifyFrom rest)"
      using ih2 u pre by (simp add: unf link isLinkFor_def)
    have tail: "linksEndAtSpace (Anchor url ''noopener noreferrer'' ''_blank'' [Text url]
                  # linkifyFrom rest')"
    proof (cases rest')
      case Nil
      then show ?thesis by (simp add: linkifyFrom_Nil)
    next
      case (Cons c cs)
      with after' have "isSpace c" by simp
      from linkifyFrom_space [OF this, of cs] obtain t ns
        where "linkifyFrom rest' = Text (c # t) # ns" using Cons by auto
      with ih3 \<open>isSpace c\<close> show ?thesis by simp
    qed
    have c3: "linksEndAtSpace (linkifyFrom rest)"
      using tail by (simp add: unf link linksEndAtSpace_Text)
    have c4: "noAdjacentText (linkifyFrom rest)"
      using ih4 by (simp add: unf link)
    have before: "\<not> urlBegins (drop j rest)" if "j < i" for j
      using exec_least [OF e that] by (simp add: urlBegins_iff)
    have len: "length (take i rest) = i" using i by simp
    have d: "drop (length url) (drop i rest) = rest'" by (rule r')
    have c5: "list_all holdsNoUrl (starts rest (linkifyFrom rest))"
    proof (cases "i = 0")
      case True
      with d have "drop (length url) rest = rest'" by simp
      with ih5 True show ?thesis by (simp add: unf link)
    next
      case False
      with ih5 before len d show ?thesis by (simp add: unf link)
    qed
    from c1 c2 c3 c4 c5 show ?thesis by (simp add: isLinkification_def)
  qed
qed

lemma exec_first: "at s = Some m \<Longrightarrow> exec at s = Some (0, m)"
  by (cases s) simp_all

lemma link_first:
  assumes "isLinkification s (Anchor href rel target children # ns)"
  shows "Anchor href rel target children = createLink href
       \<and> s = href @ concat (map textContent ns)
       \<and> urlAt s = Some (href, href)
       \<and> href \<noteq> []"
proof -
  define s' where "s' = concat (map textContent ns)"
  from assms have u: "isUrl href"
    and n: "Anchor href rel target children = Anchor href ''noopener noreferrer'' ''_blank'' [Text href]"
    by (simp_all add: isLinkification_def isLinkFor_def)
  from assms have e: "linksEndAtSpace (Anchor href rel target children # ns)"
    unfolding isLinkification_def by (elim conjE)
  from u have ne: "href \<noteq> []" by (auto simp: isUrl_def)
  from isLinkification_tl [OF assms] n have s: "s = href @ s'"
    by (simp add: s'_def)
  have "s' = [] \<or> isSpace (hd s')"
  proof (cases ns)
    case Nil
    then show ?thesis by (simp add: s'_def)
  next
    case (Cons m ms)
    with e obtain c cs where "m = Text (c # cs)" and "isSpace c"
      by (cases m) (auto split: list.splits)
    with Cons show ?thesis by (simp add: s'_def)
  qed
  from isUrl_urlAt [OF u this] have "urlAt s = Some (href, href)" by (simp add: s)
  with n ne s show ?thesis by (simp add: createLink_def s'_def)
qed

lemma linkifyFrom_link:
  assumes "urlAt (u @ r) = Some (u, u)"
  shows "linkifyFrom (u @ r) = createLink u # linkifyFrom r"
  using exec_first [of urlAt "u @ r" "(u, u)"] assms by (simp add: linkifyFrom.simps [of "u @ r"])

lemma linkifyFrom_unique:
  "isLinkification s ns \<Longrightarrow> ns = linkifyFrom s"
proof (induction ns arbitrary: s)
  case Nil
  then show ?case by (simp add: isLinkification_def linkifyFrom_Nil)
next
  case (Cons n ns)
  define s' where "s' = concat (map textContent ns)"
  from isLinkification_tl [OF Cons.prems]
  have s: "s = textContent n @ s'" and tl: "isLinkification s' ns" by (simp_all add: s'_def)
  from Cons.IH [OF tl] have ih: "ns = linkifyFrom s'" .
  show ?case
  proof (cases n)
    case (Text t)
    from Cons.prems Text have t: "t \<noteq> []"
      and h: "holdsNoUrl (s, Text t)"
      by (simp_all add: isLinkification_def)
    have no: "urlAt (drop j s) = None" if "j < length t" for j
    proof -
      from h that have "\<not> urlBegins (drop j s)" by simp
      then show ?thesis by (rule not_urlBegins)
    qed
    from s Text have st: "s = t @ s'" by simp
    show ?thesis
    proof (cases ns)
      case Nil
      then have e: "s' = []" by (simp add: s'_def)
      have "exec urlAt t = None"
      proof (rule exec_None_I)
        fix j assume "j \<le> length t"
        then show "urlAt (drop j t) = None"
          using no [of j] st e by (cases "j = length t") (simp_all add: urlAt_Nil)
      qed
      with t st e Nil Text show ?thesis by (simp add: linkifyFrom.simps [of t])
    next
      case (Cons m ms)
      from Cons.prems Text Cons obtain href rel target children
        where m: "m = Anchor href rel target children"
        by (cases m) (simp_all add: isLinkification_def)
      note lf = link_first [OF tl [unfolded Cons m]]
      from lf have a: "urlAt s' = Some (href, href)" by (elim conjE)
      from lf have ne: "href \<noteq> []" by (elim conjE)
      from urlAt_Some [OF a] have tk: "take (length href) s' = href" by simp
      have e: "exec urlAt (t @ s') = Some (length t, href, href)"
        by (rule exec_at_first) (use no st a in simp_all)
      have e': "exec urlAt s' = Some (0, href, href)"
        using exec_first [of urlAt s' "(href, href)"] a by simp
      have "linkifyFrom (t @ s') = Text t # linkifyFrom s'"
        using e e' t by (simp add: linkifyFrom.simps [of "t @ s'"] linkifyFrom.simps [of s'])
      with ih st Text show ?thesis by simp
    qed
  next
    case (Anchor href rel target children)
    note lf = link_first [OF Cons.prems [unfolded Anchor]]
    from lf have n: "n = createLink href" unfolding Anchor by (elim conjE)
    from lf have sh: "s = href @ s'" unfolding s'_def by (elim conjE)
    from lf have a: "urlAt s = Some (href, href)" by (elim conjE)
    from linkifyFrom_link [of href s'] a sh have "linkifyFrom s = createLink href # linkifyFrom s'"
      by simp
    with ih n show ?thesis by simp
  next
    case (Span classes color title children)
    with Cons.prems show ?thesis by (simp add: isLinkification_def)
  qed
qed

lemma isLinkification_iff: "isLinkification input ns \<longleftrightarrow> ns = linkifyText input"
  using linkifyFrom_unique [of input ns] linkifyFrom_sound [of input]
  by (auto simp: linkifyText_def)

text \<open>
  C6, as stated, fails: \<^verbatim>\<open>http://\<close> alone is a run without whitespace that begins with
  \<^verbatim>\<open>http://\<close>, and it stays plain text, since the expression asks for one more character.
\<close>

theorem C6_counterexample:
  "linkifyText ''http://'' = [Text ''http://'']
   \<and> startsWith ''http://'' ''http://'' \<and> noSpace ''http://''"
  by (simp add: linkifyText_def linkifyFrom.simps urlAt_def startsWith_def noSpace_def isSpace_def)

text \<open>
  C6, amended: the result of \<^verbatim>\<open>linkifyText\<close> is the one list of fragments that meets five
  conditions. The fragments, concatenated in order, are the input. Each is a text node that
  is not empty, or the link of a run that begins with \<^verbatim>\<open>http://\<close> or \<^verbatim>\<open>https://\<close>, goes on
  with one character or more and holds no whitespace, with the run as destination and as
  display text, \<^verbatim>\<open>rel\<close> "noopener noreferrer" and \<^verbatim>\<open>target\<close> "_blank". No two text nodes
  are neighbours. A link ends at whitespace or at the end of the input. At no character of a
  text node does such a run begin in the input, so every run that begins outside a link is
  linked, from its first character on. The example of the specification holds.
\<close>

theorem C6_linkifyText:
  "((concat (map textContent ns) = input
      \<and> list_all isFragment ns
      \<and> noAdjacentText ns
      \<and> linksEndAtSpace ns
      \<and> list_all holdsNoUrl (starts input ns))
     \<longleftrightarrow> ns = linkifyText input)
   \<and> linkifyText ''see http://example.com now'' =
       [Text ''see '',
        Anchor ''http://example.com'' ''noopener noreferrer'' ''_blank'' [Text ''http://example.com''],
        Text '' now'']"
proof -
  have "linkifyText ''see http://example.com now'' =
       [Text ''see '',
        Anchor ''http://example.com'' ''noopener noreferrer'' ''_blank'' [Text ''http://example.com''],
        Text '' now'']"
    by (simp add: linkifyText_def linkifyFrom.simps urlAt_def startsWith_def isSpace_def
        createLink_def Let_def)
  with isLinkification_iff [of input ns] show ?thesis
    unfolding isLinkification_def by simp
qed

theorem C6_linkifyText_witness:
  "concat (map textContent
      [Text ''a '', Anchor ''https://b.c'' ''noopener noreferrer'' ''_blank'' [Text ''https://b.c''],
       Text '' d'']) = ''a https://b.c d''
   \<and> list_all holdsNoUrl (starts ''a https://b.c d''
      [Text ''a '', Anchor ''https://b.c'' ''noopener noreferrer'' ''_blank'' [Text ''https://b.c''],
       Text '' d''])
   \<and> linkifyText ''a https://b.c d'' =
       [Text ''a '', Anchor ''https://b.c'' ''noopener noreferrer'' ''_blank'' [Text ''https://b.c''],
        Text '' d'']
   \<and> linkifyText ''http://http://a'' =
       [Anchor ''http://http://a'' ''noopener noreferrer'' ''_blank'' [Text ''http://http://a'']]
   \<and> \<not> list_all holdsNoUrl (starts ''http://http://a''
      [Text ''http://'', Anchor ''http://a'' ''noopener noreferrer'' ''_blank'' [Text ''http://a'']])
   \<and> \<not> noAdjacentText [Text ''a'', Text ''b'']"
proof -
  have a: "linkifyText ''a https://b.c d'' =
       [Text ''a '', Anchor ''https://b.c'' ''noopener noreferrer'' ''_blank'' [Text ''https://b.c''],
        Text '' d'']"
    by (simp add: linkifyText_def linkifyFrom.simps urlAt_def startsWith_def isSpace_def
        createLink_def Let_def)
  have b: "linkifyText ''http://http://a'' =
       [Anchor ''http://http://a'' ''noopener noreferrer'' ''_blank'' [Text ''http://http://a'']]"
    by (simp add: linkifyText_def linkifyFrom.simps urlAt_def startsWith_def isSpace_def
        createLink_def Let_def)
  have c: "concat (map textContent
      [Text ''http://'', Anchor ''http://a'' ''noopener noreferrer'' ''_blank'' [Text ''http://a'']])
      = ''http://http://a''"
    "list_all isFragment
      [Text ''http://'', Anchor ''http://a'' ''noopener noreferrer'' ''_blank'' [Text ''http://a'']]"
    "noAdjacentText
      [Text ''http://'', Anchor ''http://a'' ''noopener noreferrer'' ''_blank'' [Text ''http://a'']]"
    "linksEndAtSpace
      [Text ''http://'', Anchor ''http://a'' ''noopener noreferrer'' ''_blank'' [Text ''http://a'']]"
    by (simp_all add: isUrl_def isLinkFor_def startsWith_def noSpace_def isSpace_def)
  from C6_linkifyText [of "[Text ''a '',
        Anchor ''https://b.c'' ''noopener noreferrer'' ''_blank'' [Text ''https://b.c''],
        Text '' d'']" "''a https://b.c d''"] a
  have d: "concat (map textContent
      [Text ''a '', Anchor ''https://b.c'' ''noopener noreferrer'' ''_blank'' [Text ''https://b.c''],
       Text '' d'']) = ''a https://b.c d''
   \<and> list_all holdsNoUrl (starts ''a https://b.c d''
      [Text ''a '', Anchor ''https://b.c'' ''noopener noreferrer'' ''_blank'' [Text ''https://b.c''],
       Text '' d''])"
    by simp
  from C6_linkifyText [of "[Text ''http://'',
        Anchor ''http://a'' ''noopener noreferrer'' ''_blank'' [Text ''http://a'']]"
      "''http://http://a''"] b c
  have e: "\<not> list_all holdsNoUrl (starts ''http://http://a''
      [Text ''http://'', Anchor ''http://a'' ''noopener noreferrer'' ''_blank'' [Text ''http://a'']])"
    by simp
  from a b d e show ?thesis by simp
qed

section \<open>Colours\<close>

lemma of_char_lt_256: "(of_char c :: nat) < 256"
  by (metis of_char_mod_256 mod_less_divisor zero_less_numeral)

lemma toLowerChar_code:
  "(of_char (toLowerChar c) :: nat) =
     (let n = (of_char c :: nat) in
      if (65 \<le> n \<and> n \<le> 90) \<or> (192 \<le> n \<and> n \<le> 222 \<and> n \<noteq> 215) then n + 32 else n)"
  using of_char_lt_256 [of c]
  by (auto simp: toLowerChar_def Let_def)

lemma isHexDigit_toLowerChar: "isHexDigit (toLowerChar c) = isHexDigit c"
  unfolding isHexDigit_def toLowerChar_code
  by (auto simp: Let_def)

lemma toLowerChar_hash: "toLowerChar c = CHR ''#'' \<longleftrightarrow> c = CHR ''#''"
proof -
  have "toLowerChar c = CHR ''#'' \<longleftrightarrow> (of_char (toLowerChar c) :: nat) = of_char (CHR ''#'')"
    by (simp only: of_char_eq_iff)
  also have "\<dots> \<longleftrightarrow> (of_char c :: nat) = of_char (CHR ''#'')"
    unfolding toLowerChar_code by (auto simp: Let_def)
  also have "\<dots> \<longleftrightarrow> c = CHR ''#''"
    by (simp only: of_char_eq_iff)
  finally show ?thesis .
qed

lemma hexColorTest_toLowerCase: "hexColorTest (toLowerCase s) = hexColorTest s"
  by (cases s)
     (auto simp: hexColorTest_def toLowerCase_def toLowerChar_hash list_all_iff
        isHexDigit_toLowerChar)

lemma hexColorTest_iff:
  "hexColorTest s \<longleftrightarrow> (\<exists>r. s = CHR ''#'' # r \<and> length r = 6 \<and> list_all isHexDigit r)"
  by (cases s) (auto simp: hexColorTest_def)

lemma isValidColor_iff:
  "isValidColor color \<longleftrightarrow>
     toLowerCase color \<in> set VALID_COLORS
     \<or> (\<exists>r. color = CHR ''#'' # r \<and> length r = 6 \<and> list_all isHexDigit r)"
proof -
  have "[] \<notin> set VALID_COLORS" by (simp add: VALID_COLORS_def)
  then have "color = [] \<Longrightarrow> toLowerCase color \<notin> set VALID_COLORS"
    by (simp add: toLowerCase_def)
  moreover have "color = [] \<Longrightarrow> \<not> hexColorTest color" by (simp add: hexColorTest_def)
  ultimately show ?thesis
    unfolding hexColorTest_iff [symmetric]
    by (auto simp: isValidColor_def hexColorTest_toLowerCase)
qed

lemma styleSpan_invalid:
  assumes "color \<noteq> []" and "\<not> isValidColor color"
  shows "styleSpan (Some color) b i u s ob =
     (fst (styleSpan None b i u s ob), Warn (''Invalid color format: '' @ color) # snd (styleSpan None b i u s ob))"
  using assms by (simp add: styleSpan_def applyColor_def truthyString_def)

lemma assemble_warn:
  "assemble (n, w # l) tooltip content extras =
     (case assemble (n, l) tooltip content extras of (r, ls) \<Rightarrow> (r, w # ls))"
  by (cases tooltip; cases "fst tooltip") (auto simp: assemble_def split: option.splits)

lemma finish_warn:
  "finish t (r, w # l) = (case finish t (r, l) of (n, ls) \<Rightarrow> (n, w # ls))"
  by (cases r) (auto simp: finish_def)

lemma invalid_color_render:
  assumes "color \<noteq> []" and "\<not> isValidColor color"
  shows "formatComponent table (Component t tr w e (Some color) b i u s ob h) =
     (case formatComponent table (Component t tr w e None b i u s ob h) of
        (n, l) \<Rightarrow> (n, Warn (''Invalid color format: '' @ color) # l))"
proof -
  obtain sp l0 where st: "styleSpan None b i u s ob = (sp, l0)"
    by (cases "styleSpan None b i u s ob") auto
  show ?thesis
    by (simp add: styleSpan_invalid [OF assms] st assemble_warn finish_warn split: prod.splits)
qed

text \<open>
  C8, as stated, fails for the empty string: it is present and not a valid colour, and the
  renderer neither colours the node nor logs anything.
\<close>

theorem C8_counterexample:
  "\<not> isValidColor []
   \<and> formatComponent emptyTable
        (Component (Some ''x'') None None None (Some []) None None None None None None)
      = (Span [] None None [Text ''x''], [])"
  by (simp add: isValidColor_def styleSpan_def applyColor_def truthyString_def applyFlag_def
      titleOf_def assemble_def finish_def MAX_CHAT_LENGTH_def linkifyText_def linkifyFrom.simps
      urlAt_def startsWith_def)

text \<open>
  C8, amended: \<^verbatim>\<open>isValidColor\<close> is true exactly when the value, in lower case, is one of the
  17 palette entries or the value is \<^verbatim>\<open>#\<close> and six hexadecimal digits, and false on the
  empty string; during rendering a colour that is not empty and not valid adds one warning and
  otherwise leaves the result as it is without the colour. An empty colour is skipped without
  a warning: the result and the log are those of the component without the colour.
\<close>

theorem C8_color:
  "(isValidColor color \<longleftrightarrow>
      toLowerCase color \<in> set VALID_COLORS
      \<or> (\<exists>r. color = CHR ''#'' # r \<and> length r = 6 \<and> list_all isHexDigit r))
   \<and> length VALID_COLORS = 17 \<and> distinct VALID_COLORS
   \<and> \<not> isValidColor []
   \<and> (color \<noteq> [] \<and> \<not> isValidColor color \<longrightarrow>
        formatComponent table (Component t tr w e (Some color) b i u s ob h) =
          (case formatComponent table (Component t tr w e None b i u s ob h) of
             (n, l) \<Rightarrow> (n, Warn (''Invalid color format: '' @ color) # l)))
   \<and> formatComponent table (Component t tr w e (Some []) b i u s ob h)
        = formatComponent table (Component t tr w e None b i u s ob h)"
proof -
  have "length VALID_COLORS = 17 \<and> distinct VALID_COLORS"
    by (simp add: VALID_COLORS_def)
  moreover have "\<not> isValidColor []" by (simp add: isValidColor_def)
  moreover have "formatComponent table (Component t tr w e (Some []) b i u s ob h)
        = formatComponent table (Component t tr w e None b i u s ob h)"
    by (simp add: styleSpan_def applyColor_def truthyString_def)
  ultimately show ?thesis
    using isValidColor_iff [of color] invalid_color_render [of color table t tr w e b i u s ob h]
    by blast
qed

theorem C8_color_witness:
  "''not-a-color'' \<noteq> [] \<and> \<not> isValidColor ''not-a-color''
   \<and> formatComponent emptyTable
        (Component (Some ''hi'') None None None (Some ''not-a-color'') (Some True) None None None
           None None)
      = (Span [''mc-bold''] None None [Text ''hi''], [Warn ''Invalid color format: not-a-color''])"
proof -
  have inv: "\<not> isValidColor ''not-a-color''"
    by (simp add: isValidColor_def toLowerCase_def toLowerChar_def VALID_COLORS_def
        char_of_eq_iff hexColorTest_def)
  have "formatComponent emptyTable
        (Component (Some ''hi'') None None None None (Some True) None None None None None)
      = (Span [''mc-bold''] None None [Text ''hi''], [])"
    by (simp add: styleSpan_def applyColor_def truthyString_def applyFlag_def
      titleOf_def assemble_def finish_def MAX_CHAT_LENGTH_def linkifyText_def linkifyFrom.simps
      urlAt_def startsWith_def)
  with inv C8_color [of "''not-a-color''" emptyTable "Some ''hi''" None None None "Some True"
      None None None None None]
  show ?thesis by simp
qed

section \<open>The renderer: length limit and content source\<close>

lemma isSpan_ops [simp]:
  "isSpan (classListAdd c n) = isSpan n"
  "isSpan (setStyleColor c n) = isSpan n"
  "isSpan (setTitle t n) = isSpan n"
  "isSpan (appendChildren ns n) = isSpan n"
  "isSpan (applyFlag f c n) = isSpan n"
  by (cases n; simp add: applyFlag_def)+

lemma isSpan_styleSpan: "isSpan (fst (styleSpan c b i u s ob))"
  by (simp add: styleSpan_def applyColor_def split: option.splits prod.splits)

lemma assemble_isSpan:
  "isSpan (fst styled) \<Longrightarrow> assemble styled tooltip content extras = (Inr r, l) \<Longrightarrow> isSpan r"
  by (cases tooltip; cases "fst tooltip") (auto simp: assemble_def split: option.splits)

lemma formatComponent_finish:
  "formatComponent table c = finish (componentText c) (formatComponentTry table c)"
  by (cases c) simp

lemma formatComponentTry_isSpan:
  "formatComponentTry table c = (Inr r, l) \<Longrightarrow> isSpan r"
  by (cases c) (auto intro: assemble_isSpan [OF isSpan_styleSpan])

lemma isSpan_D: "isSpan r \<Longrightarrow> \<exists>classes color title children. r = Span classes color title children"
  by (cases r) auto

lemma textContent_setTextContent: "isSpan r \<Longrightarrow> textContent (setTextContent s r) = s"
  by (cases r) auto

lemma text_first:
  "s \<noteq> [] \<Longrightarrow>
     formatComponent table (Component (Some s) tr w e c b i u st ob h)
   = formatComponent table (Component (Some s) None None e c b i u st ob h)"
  by (simp add: truthyString_def)

lemma finish_empty: "finish (Some []) r = finish None r"
  by (cases r; cases "fst r") (auto simp: finish_def)

lemma empty_text:
  "formatComponent table (Component (Some []) tr w e c b i u st ob h)
   = formatComponent table (Component None tr w e c b i u st ob h)"
  by (simp add: truthyString_def finish_empty)

lemmas render_eval =
  styleSpan_def applyColor_def truthyString_def applyFlag_def titleOf_def assemble_def finish_def
  partNode_def toStringProp_def




text \<open>
  C9: when the assembled text content is longer than 4096 characters, the node returned is the
  assembled span with its class list, colour and tooltip, and with one child only, a text
  node holding the first 4096 characters: every link and every nested span is gone.
\<close>

theorem C9_single_child:
  "formatComponentTry table c = (Inr r, l) \<Longrightarrow> MAX_CHAT_LENGTH < length (textContent r) \<Longrightarrow>
     \<exists>classes color title children.
        r = Span classes color title children
        \<and> formatComponent table c =
            (Span classes color title [Text (take MAX_CHAT_LENGTH (textContent r))],
             l @ [Warn ''Chat message exceeded maximum length, truncating''])"
proof -
  assume t: "formatComponentTry table c = (Inr r, l)"
    and long: "MAX_CHAT_LENGTH < length (textContent r)"
  from formatComponentTry_isSpan [OF t] obtain classes color title children
    where r: "r = Span classes color title children" using isSpan_D by blast
  from long have ne: "textContent r \<noteq> []" by auto
  from long have "take MAX_CHAT_LENGTH (textContent r) \<noteq> []"
    by (auto simp: MAX_CHAT_LENGTH_def)
  with long ne show ?thesis
    unfolding formatComponent_finish t
    by (simp add: finish_def r)
qed

lemma styled_long_try:
  "formatComponentTry emptyTable
     (Component (Some ''http://a'') None None
        (Some [PComponent (Component (Some ''b'') None None None None (Some True) None None None
                 None None),
               PString longText])
        (Some ''red'') None (Some True) None None None
        (Some (ShowText (Some (TString ''tip'')) None)))
   = (Inr (Span [''mc-red'', ''mc-italic''] None (Some ''tip'')
            [Anchor ''http://a'' ''noopener noreferrer'' ''_blank'' [Text ''http://a''],
             Span [''mc-bold''] None None [Text ''b''],
             Text longText]), [])"
  by (simp add: render_eval MAX_CHAT_LENGTH_def linkifyText_def linkifyFrom.simps urlAt_def
      startsWith_def isSpace_def createLink_def Let_def isValidColor_def toLowerCase_def
      toLowerChar_def VALID_COLORS_def char_of_eq_iff)

theorem C9_single_child_witness:
  "MAX_CHAT_LENGTH < length (textContent (Span [''mc-red'', ''mc-italic''] None (Some ''tip'')
            [Anchor ''http://a'' ''noopener noreferrer'' ''_blank'' [Text ''http://a''],
             Span [''mc-bold''] None None [Text ''b''],
             Text longText]))
   \<and> formatComponent emptyTable
     (Component (Some ''http://a'') None None
        (Some [PComponent (Component (Some ''b'') None None None None (Some True) None None None
                 None None),
               PString longText])
        (Some ''red'') None (Some True) None None None
        (Some (ShowText (Some (TString ''tip'')) None)))
     = (Span [''mc-red'', ''mc-italic''] None (Some ''tip'')
          [Text (take MAX_CHAT_LENGTH (''http://ab'' @ longText))],
        [Warn ''Chat message exceeded maximum length, truncating''])"
proof -
  have long: "MAX_CHAT_LENGTH < length (textContent (Span [''mc-red'', ''mc-italic''] None
            (Some ''tip'')
            [Anchor ''http://a'' ''noopener noreferrer'' ''_blank'' [Text ''http://a''],
             Span [''mc-bold''] None None [Text ''b''],
             Text longText]))"
    by (simp add: MAX_CHAT_LENGTH_def longText_def)
  from C9_single_child [OF styled_long_try long] long show ?thesis by simp
qed

text \<open>
  C4, as stated, fails when \<^verbatim>\<open>text\<close> is the empty string: the property is present, and the
  content comes from \<^verbatim>\<open>translate\<close>.
\<close>

theorem C4_counterexample:
  "formatComponent demoTable
     (Component (Some []) (Some ''hi'') None None None None None None None None None)
   = (Span [] None None [Text ''hello''], [])"
  by (simp add: render_eval MAX_CHAT_LENGTH_def formatTranslation_def demoTable_def
      startsWith_def simpleSubstitution_def simpleFrom.simps simpleAt_def)

text \<open>
  C4, amended: when \<^verbatim>\<open>text\<close> is present and not empty, the content is \<^verbatim>\<open>text\<close> split by
  the linkifier, and \<^verbatim>\<open>translate\<close> and \<^verbatim>\<open>with\<close> do not matter; an empty \<^verbatim>\<open>text\<close> is as
  an absent one; and when \<^verbatim>\<open>text\<close> is absent or empty and \<^verbatim>\<open>translate\<close> is present and
  not empty, the content is the translation of \<^verbatim>\<open>translate\<close> with the arguments \<^verbatim>\<open>with\<close>
  (none when absent). An empty \<^verbatim>\<open>translate\<close> is as an absent one, and with neither
  property the node has no content of its own.
\<close>

theorem C4_content_source:
  "(s \<noteq> [] \<longrightarrow>
      formatComponent table (Component (Some s) tr w e c b i u st ob h)
        = formatComponent table (Component (Some s) None None e c b i u st ob h)
      \<and> formatComponentTry table (Component (Some s) tr w e c b i u st ob h)
        = assemble (styleSpan c b i u st ob)
            (case h of None \<Rightarrow> (Inr None, []) | Some x \<Rightarrow> titleOf (formatHoverEvent table x))
            (linkifyText s, [])
            (case e of None \<Rightarrow> ([], [])
             | Some entries \<Rightarrow> mapLog (partNode (formatComponent table)) entries))
   \<and> formatComponent table (Component (Some []) tr w e c b i u st ob h)
        = formatComponent table (Component None tr w e c b i u st ob h)
   \<and> (key \<noteq> [] \<longrightarrow>
      formatComponentTry table (Component None (Some key) w e c b i u st ob h)
        = assemble (styleSpan c b i u st ob)
            (case h of None \<Rightarrow> (Inr None, []) | Some x \<Rightarrow> titleOf (formatHoverEvent table x))
            (formatTranslation (formatComponent table) table key
               (case w of None \<Rightarrow> [] | Some args \<Rightarrow> args))
            (case e of None \<Rightarrow> ([], [])
             | Some entries \<Rightarrow> mapLog (partNode (formatComponent table)) entries))
   \<and> formatComponent table (Component t (Some []) w e c b i u st ob h)
        = formatComponent table (Component t None w e c b i u st ob h)
   \<and> formatComponentTry table (Component None None w e c b i u st ob h)
        = assemble (styleSpan c b i u st ob)
            (case h of None \<Rightarrow> (Inr None, []) | Some x \<Rightarrow> titleOf (formatHoverEvent table x))
            ([], [])
            (case e of None \<Rightarrow> ([], [])
             | Some entries \<Rightarrow> mapLog (partNode (formatComponent table)) entries)"
proof -
  have c1: "s \<noteq> [] \<longrightarrow>
      formatComponent table (Component (Some s) tr w e c b i u st ob h)
        = formatComponent table (Component (Some s) None None e c b i u st ob h)
      \<and> formatComponentTry table (Component (Some s) tr w e c b i u st ob h)
        = assemble (styleSpan c b i u st ob)
            (case h of None \<Rightarrow> (Inr None, []) | Some x \<Rightarrow> titleOf (formatHoverEvent table x))
            (linkifyText s, [])
            (case e of None \<Rightarrow> ([], [])
             | Some entries \<Rightarrow> mapLog (partNode (formatComponent table)) entries)"
    using text_first [of s table tr w e c b i u st ob h] by (simp add: truthyString_def)
  have c2: "formatComponent table (Component (Some []) tr w e c b i u st ob h)
        = formatComponent table (Component None tr w e c b i u st ob h)"
    by (rule empty_text)
  have c3: "key \<noteq> [] \<longrightarrow>
      formatComponentTry table (Component None (Some key) w e c b i u st ob h)
        = assemble (styleSpan c b i u st ob)
            (case h of None \<Rightarrow> (Inr None, []) | Some x \<Rightarrow> titleOf (formatHoverEvent table x))
            (formatTranslation (formatComponent table) table key
               (case w of None \<Rightarrow> [] | Some args \<Rightarrow> args))
            (case e of None \<Rightarrow> ([], [])
             | Some entries \<Rightarrow> mapLog (partNode (formatComponent table)) entries)"
    by (simp add: truthyString_def)
  have tr: "truthyString (Some []) = truthyString None" by (simp add: truthyString_def)
  have c4: "formatComponent table (Component t (Some []) w e c b i u st ob h)
        = formatComponent table (Component t None w e c b i u st ob h)"
    by (cases "truthyString t") (simp_all add: tr)
  have c5: "formatComponentTry table (Component None None w e c b i u st ob h)
        = assemble (styleSpan c b i u st ob)
            (case h of None \<Rightarrow> (Inr None, []) | Some x \<Rightarrow> titleOf (formatHoverEvent table x))
            ([], [])
            (case e of None \<Rightarrow> ([], [])
             | Some entries \<Rightarrow> mapLog (partNode (formatComponent table)) entries)"
    by (simp add: truthyString_def)
  show ?thesis by (intro conjI c1 c2 c3 c4 c5)
qed

theorem C4_content_source_witness:
  "''a'' \<noteq> [] \<and> ''hi'' \<noteq> []
   \<and> formatComponent demoTable
        (Component (Some ''a'') (Some ''hi'') None None None None None None None None None)
      = (Span [] None None [Text ''a''], [])
   \<and> formatComponent demoTable
        (Component (Some []) (Some ''hi'') None None None None None None None None None)
      = formatComponent demoTable
        (Component None (Some ''hi'') None None None None None None None None None)
   \<and> formatComponentTry demoTable
        (Component None (Some ''hi'') None None None None None None None None None)
      = (Inr (Span [] None None [Text ''hello'']), [])"
proof -
  have a: "formatComponent demoTable
        (Component (Some ''a'') None None None None None None None None None None)
      = (Span [] None None [Text ''a''], [])"
    by (simp add: render_eval MAX_CHAT_LENGTH_def linkifyText_def linkifyFrom.simps urlAt_def
        startsWith_def)
  have b: "formatTranslation (formatComponent demoTable) demoTable ''hi'' [] = ([Text ''hello''], [])"
    by (simp add: formatTranslation_def demoTable_def startsWith_def simpleSubstitution_def
        simpleFrom.simps simpleAt_def)
  from C4_content_source [of "''a''" demoTable "Some ''hi''" None None None None None None None
      None None "''hi''"] a b
  show ?thesis by (simp add: render_eval)
qed

section \<open>Tooltips\<close>

lemma get_truthy: "get v k = Some x \<Longrightarrow> truthy v"
  by (cases v) auto

lemma show_item_structured:
  assumes "get contents ''id'' = Some (JStr ident)"
  shows "(get contents ''count'' = Some (JNum n) \<and> n \<noteq> ''0'' \<longrightarrow>
            formatShowItem (Some contents) = (Inr (Some (JStr (n @ ''x '' @ ident))), []))
       \<and> (get contents ''count'' = None \<or> get contents ''count'' = Some (JNum ''0'') \<longrightarrow>
            formatShowItem (Some contents) = (Inr (Some (JStr ident)), []))"
  using assms get_truthy [OF assms]
  by (auto simp: formatShowItem_def truthyProp_def getProp_def toStringProp_def)

lemma show_entity_structured:
  assumes "truthy contents"
  shows "(get contents ''name'' = Some (JStr name) \<and> name \<noteq> [] \<longrightarrow>
            formatShowEntity (Some contents) = (Inr (Some (JStr name)), []))
       \<and> (get contents ''name'' = None \<or> get contents ''name'' = Some (JStr []) \<longrightarrow>
            formatShowEntity (Some contents) = (Inr (Some (JStr ''Unnamed Entity'')), []))"
  using assms
  by (auto simp: formatShowEntity_def truthyProp_def getProp_def)

lemmas validate_eval =
  assertIsComponent.simps assertIsShowTextHoverEvent.simps assertIsShowItemHoverEvent_def
  assertIsShowEntityHoverEvent_def assertOwnFields_def andThen_def has_def typeofProp_def
  MAX_CHAT_DEPTH_def VALID_HOVER_EVENTS_def showNat.simps digitChar_def

text \<open>
  C7, as stated, fails for an entity whose \<^verbatim>\<open>name\<close> is the empty string: the component
  passes validation, the name is present, and the tooltip is the fallback.
\<close>

theorem C7_counterexample:
  "assertIsComponent
     (JObj [(''text'', JStr ''x''),
            (''hoverEvent'',
             JObj [(''action'', JStr ''show_entity''),
                   (''contents'',
                    JObj [(''type'', JStr ''minecraft:pig''), (''id'', JStr ''1''),
                          (''name'', JStr [])])])]) [] = Inr ()
   \<and> formatHoverEvent emptyTable
        (ShowEntity
           (Some (JObj [(''type'', JStr ''minecraft:pig''), (''id'', JStr ''1''),
                        (''name'', JStr [])])) None)
      = (Inr (Some (JStr ''Unnamed Entity'')), [])"
  by (simp add: validate_eval formatShowEntity_def truthyProp_def getProp_def)

text \<open>
  C7, amended: for a \<^verbatim>\<open>show_item\<close> event whose \<^verbatim>\<open>contents\<close> has the string \<^verbatim>\<open>id\<close>, the
  tooltip is the count as JavaScript prints it, \<^verbatim>\<open>x\<close>, a space and the id when \<^verbatim>\<open>count\<close>
  is a number other than zero, whole or not, and the id alone when \<^verbatim>\<open>count\<close> is absent or
  zero; for a \<^verbatim>\<open>show_entity\<close> event with \<^verbatim>\<open>contents\<close> the tooltip is \<^verbatim>\<open>name\<close> when it is
  present and not empty, and "Unnamed Entity" when it is absent or empty; without
  \<^verbatim>\<open>contents\<close> both give the empty string and the warning, whatever \<^verbatim>\<open>value\<close> is.
\<close>

theorem C7_hover:
  "(get contents ''id'' = Some (JStr ident) \<longrightarrow>
      (get contents ''count'' = Some (JNum n) \<and> n \<noteq> ''0'' \<longrightarrow>
         formatHoverEvent table (ShowItem (Some contents) value)
           = (Inr (Some (JStr (n @ ''x '' @ ident))), []))
      \<and> (get contents ''count'' = None \<or> get contents ''count'' = Some (JNum ''0'') \<longrightarrow>
         formatHoverEvent table (ShowItem (Some contents) value)
           = (Inr (Some (JStr ident)), [])))
   \<and> (truthy entity \<longrightarrow>
      (get entity ''name'' = Some (JStr name) \<and> name \<noteq> [] \<longrightarrow>
         formatHoverEvent table (ShowEntity (Some entity) value)
           = (Inr (Some (JStr name)), []))
      \<and> (get entity ''name'' = None \<or> get entity ''name'' = Some (JStr []) \<longrightarrow>
         formatHoverEvent table (ShowEntity (Some entity) value)
           = (Inr (Some (JStr ''Unnamed Entity'')), [])))
   \<and> formatHoverEvent table (ShowItem None value)
        = (Inr (Some (JStr [])), [Warn ''Unsupported legacy hoverEvent''])
   \<and> formatHoverEvent table (ShowEntity None value)
        = (Inr (Some (JStr [])), [Warn ''Unsupported legacy hoverEvent''])"
proof -
  have legacy: "formatShowItem None = (Inr (Some (JStr [])), [Warn ''Unsupported legacy hoverEvent''])"
    "formatShowEntity None = (Inr (Some (JStr [])), [Warn ''Unsupported legacy hoverEvent''])"
    by (simp_all add: formatShowItem_def formatShowEntity_def truthyProp_def)
  show ?thesis
    using show_item_structured [of contents ident n] show_entity_structured [of entity name] legacy
    by simp
qed

theorem C7_hover_witness:
  "get (JObj [(''id'', JStr ''minecraft:diamond''), (''count'', JNum ''5'')]) ''id''
     = Some (JStr ''minecraft:diamond'')
   \<and> get (JObj [(''id'', JStr ''minecraft:diamond''), (''count'', JNum ''5'')]) ''count''
     = Some (JNum ''5'')
   \<and> formatHoverEvent emptyTable
        (ShowItem (Some (JObj [(''id'', JStr ''minecraft:diamond''), (''count'', JNum ''5'')])) None)
     = (Inr (Some (JStr ''5x minecraft:diamond'')), [])
   \<and> formatHoverEvent emptyTable
        (ShowItem (Some (JObj [(''id'', JStr ''d''), (''count'', JNum ''1e+21'')])) None)
     = (Inr (Some (JStr ''1e+21x d'')), [])
   \<and> formatHoverEvent emptyTable
        (ShowItem (Some (JObj [(''id'', JStr ''d''), (''count'', JNum ''0.5'')])) None)
     = (Inr (Some (JStr ''0.5x d'')), [])
   \<and> truthy (JObj [(''type'', JStr ''minecraft:pig''), (''id'', JStr ''1''),
                   (''name'', JStr ''Pig'')])
   \<and> formatHoverEvent emptyTable
        (ShowEntity (Some (JObj [(''type'', JStr ''minecraft:pig''), (''id'', JStr ''1''),
                                 (''name'', JStr ''Pig'')])) None)
     = (Inr (Some (JStr ''Pig'')), [])"
  using C7_hover [of "JObj [(''id'', JStr ''minecraft:diamond''), (''count'', JNum ''5'')]"
      "''minecraft:diamond''" "''5''" emptyTable None
      "JObj [(''type'', JStr ''minecraft:pig''), (''id'', JStr ''1''), (''name'', JStr ''Pig'')]"
      "''Pig''"]
    C7_hover [of "JObj [(''id'', JStr ''d''), (''count'', JNum ''1e+21'')]"
      "''d''" "''1e+21''" emptyTable None JNull "[]"]
    C7_hover [of "JObj [(''id'', JStr ''d''), (''count'', JNum ''0.5'')]"
      "''d''" "''0.5''" emptyTable None JNull "[]"]
  by simp

section \<open>Placeholders in a template\<close>

lemma numberedAt_token:
  assumes "ds \<noteq> []" and "list_all isDigit ds"
  shows "numberedAt (''%'' @ ds @ ''$s'' @ rest) = Some (''%'' @ ds @ ''$s'', ds)"
proof -
  have nd: "\<not> isDigit CHR ''$''" by (simp add: isDigit_def)
  have all: "\<And>x. x \<in> set ds \<Longrightarrow> isDigit x" using assms(2) by (simp add: list_all_iff)
  have t: "takeWhile isDigit (ds @ CHR ''$'' # CHR ''s'' # rest) = ds"
    using all nd by (simp add: takeWhile_append2)
  have d: "dropWhile isDigit (ds @ CHR ''$'' # CHR ''s'' # rest) = CHR ''$'' # CHR ''s'' # rest"
    using all nd by (simp add: dropWhile_append2)
  show ?thesis
    using assms(1) by (simp add: numberedAt_def t d startsWith_def)
qed

lemma substitute_placeholder:
  "substitute f template (argAt args (int n - 1)) shown token
     = placeholderValue f args n shown token template"
proof (cases "1 \<le> n \<and> n \<le> length args")
  case True
  then have "argAt args (int n - 1) = Some (args ! (n - 1))"
    by (auto simp: argAt_def nat_diff_distrib')
  with True show ?thesis
    by (cases "args ! (n - 1)") (auto simp: substitute_def placeholderValue_def Let_def)
next
  case False
  then have "argAt args (int n - 1) = None" by (auto simp: argAt_def)
  with False show ?thesis by (auto simp: substitute_def placeholderValue_def Let_def)
qed

lemma takeWhile_all: "list_all P (takeWhile P xs)"
  by (induction xs) auto

lemma numberedAt_SomeD:
  assumes "numberedAt s = Some (m, g)"
  shows "m = ''%'' @ g @ ''$s''" and "g \<noteq> []" and "list_all isDigit g"
    and "length m \<le> length s" and "take (length m) s = m"
proof -
  have "m = ''%'' @ g @ ''$s'' \<and> g \<noteq> [] \<and> list_all isDigit g
       \<and> length m \<le> length s \<and> take (length m) s = m"
  proof (cases s)
  case Nil
  with assms show ?thesis by (simp add: numberedAt_def)
next
  case (Cons c r)
  with assms have c: "c = CHR ''%''" and g: "g = takeWhile isDigit r" and ne: "g \<noteq> []"
    and m: "m = ''%'' @ g @ ''$s''" and d: "startsWith (dropWhile isDigit r) ''$s''"
    by (auto simp: numberedAt_def split: if_splits)
  from startsWith_D [OF d] obtain x where x: "dropWhile isDigit r = ''$s'' @ x" by blast
  have "r = g @ dropWhile isDigit r" by (simp add: g)
  with x have "s = m @ x" by (simp add: Cons c m)
  then have "length m \<le> length s \<and> take (length m) s = m" by simp
  with m ne g takeWhile_all [of isDigit r] show ?thesis by simp
  qed
  then show "m = ''%'' @ g @ ''$s''" and "g \<noteq> []" and "list_all isDigit g"
    and "length m \<le> length s" and "take (length m) s = m" by blast+
qed

lemma isNumberedToken_iff:
  "isNumberedToken t \<longleftrightarrow> (\<exists>ds. ds \<noteq> [] \<and> list_all isDigit ds \<and> t = ''%'' @ ds @ ''$s'')"
proof
  assume "isNumberedToken t"
  then have "takeWhile isDigit (drop 1 t) \<noteq> []"
    and "t = ''%'' @ takeWhile isDigit (drop 1 t) @ ''$s''"
    by (simp_all add: isNumberedToken_def Let_def)
  with takeWhile_all [of isDigit "drop 1 t"]
  show "\<exists>ds. ds \<noteq> [] \<and> list_all isDigit ds \<and> t = ''%'' @ ds @ ''$s''" by blast
next
  assume "\<exists>ds. ds \<noteq> [] \<and> list_all isDigit ds \<and> t = ''%'' @ ds @ ''$s''"
  then obtain ds where ne: "ds \<noteq> []" and all: "list_all isDigit ds"
    and t: "t = ''%'' @ ds @ ''$s''" by blast
  have nd: "\<not> isDigit CHR ''$''" by (simp add: isDigit_def)
  from takeWhile_run [OF all, of "''$s''"] nd have "takeWhile isDigit (ds @ ''$s'') = ds" by simp
  with ne show "isNumberedToken t" by (simp add: isNumberedToken_def t Let_def)
qed

lemma numberedBegins_iff: "numberedBegins s \<longleftrightarrow> numberedAt s \<noteq> None"
proof
  assume "numberedBegins s"
  then obtain n where n: "n \<le> length s" and t: "isNumberedToken (take n s)"
    by (auto simp: numberedBegins_def)
  define ds where "ds = takeWhile isDigit (drop 1 (take n s))"
  from t have ne: "ds \<noteq> []" and e: "take n s = ''%'' @ ds @ ''$s''"
    by (simp_all add: isNumberedToken_def ds_def Let_def)
  have all: "list_all isDigit ds" unfolding ds_def by (rule takeWhile_all)
  have "s = take n s @ drop n s" by simp
  with e have "s = ''%'' @ ds @ ''$s'' @ drop n s" by simp
  with numberedAt_token [OF ne all, of "drop n s"] show "numberedAt s \<noteq> None" by simp
next
  assume "numberedAt s \<noteq> None"
  then obtain m g where a: "numberedAt s = Some (m, g)" by auto
  note m = numberedAt_SomeD(1) [OF a] and ne = numberedAt_SomeD(2) [OF a]
    and all = numberedAt_SomeD(3) [OF a] and l = numberedAt_SomeD(4) [OF a]
    and tk = numberedAt_SomeD(5) [OF a]
  have nd: "\<not> isDigit CHR ''$''" by (simp add: isDigit_def)
  from takeWhile_run [OF all, of "''$s''"] nd have "takeWhile isDigit (g @ ''$s'') = g" by simp
  with ne have "isNumberedToken m" by (simp add: isNumberedToken_def m Let_def)
  with tk have "isNumberedToken (take (length m) s)" by simp
  with l show "numberedBegins s" unfolding numberedBegins_def by (intro bexI [of _ "length m"]) simp_all
qed

lemma not_numberedBegins: "\<not> numberedBegins s \<Longrightarrow> numberedAt s = None"
  using numberedBegins_iff [of s] by blast

lemma not_simpleBegins: "\<not> simpleBegins s \<Longrightarrow> simpleAt s = None"
  by (simp add: simpleBegins_def simpleAt_def)

lemma simpleAt_SomeD:
  assumes "simpleAt s = Some (m, g)"
  shows "m = ''%s''" and "length m \<le> length s" and "take (length m) s = m"
proof -
  from assms have m: "m = ''%s''" and st: "startsWith s ''%s''"
    by (auto simp: simpleAt_def split: if_splits)
  from startsWith_D [OF st] obtain x where "s = ''%s'' @ x" by blast
  then have "length ''%s'' \<le> length s" and "take (length ''%s'') s = ''%s''" by simp_all
  with m show "m = ''%s''" and "length m \<le> length s" and "take (length m) s = m"
    by simp_all
qed

lemma tokenFree_D: "tokenFree begins n s \<Longrightarrow> j < n \<Longrightarrow> \<not> begins (drop j s)"
  by (simp add: tokenFree_def)

lemma numbered_step:
  assumes free: "tokenFree numberedBegins (length lit) (lit @ ''%'' @ ds @ ''$s'' @ rest)"
    and "ds \<noteq> []" and "list_all isDigit ds"
  shows "numberedFrom f template args (lit @ ''%'' @ ds @ ''$s'' @ rest) =
       (case placeholderValue f args (parseInt ds) (int (parseInt ds) - 1) (''%'' @ ds @ ''$s'')
               template of
          (n, l) \<Rightarrow>
            (case numberedFrom f template args rest of
               (ns, ls) \<Rightarrow> ((if lit \<noteq> [] then [Text lit] else []) @ n # ns, l @ ls)))"
proof -
  define token where "token = ''%'' @ ds @ ''$s''"
  have tk: "''%'' @ ds @ ''$s'' @ rest = token @ rest" by (simp add: token_def)
  have no: "numberedAt (drop j (lit @ token @ rest)) = None" if "j < length lit" for j
    using tokenFree_D [OF free that] unfolding tk by (rule not_numberedBegins)
  have at: "numberedAt (token @ rest) = Some (token, ds)"
    using numberedAt_token [OF assms(2,3), of rest] by (simp add: token_def)
  from exec_at_first [of lit numberedAt "token @ rest" "(token, ds)", OF no at]
  have e: "exec numberedAt (lit @ token @ rest) = Some (length lit, token, ds)" .
  have tok: "''%'' @ ds @ ''$s'' = token" by (simp add: token_def)
  have unf: "numberedFrom f template args (lit @ token @ rest) =
      (case substitute f template (argAt args (int (parseInt ds) - 1))
                (int (parseInt ds) - 1) token of
         (n, l) \<Rightarrow>
           (case numberedFrom f template args
                   (drop (length lit + length token) (lit @ token @ rest)) of
              (ns, ls) \<Rightarrow>
                ((if 0 < length lit then [Text (take (length lit) (lit @ token @ rest))] else [])
                 @ [n] @ ns, l @ ls)))"
    by (subst numberedFrom.simps) (simp only: e option.case prod.case)
  show ?thesis
    unfolding tk tok unf substitute_placeholder
    by (simp split: prod.splits)
qed

lemma simple_step:
  assumes free: "tokenFree simpleBegins (length lit) (lit @ ''%s'' @ rest)"
  shows "simpleFrom f template args index (lit @ ''%s'' @ rest) =
       (case placeholderValue f args (Suc index) (int (Suc index)) ''%s'' template of
          (n, l) \<Rightarrow>
            (case simpleFrom f template args (Suc index) rest of
               (ns, ls) \<Rightarrow> ((if lit \<noteq> [] then [Text lit] else []) @ n # ns, l @ ls)))"
proof -
  have a: "simpleAt (''%s'' @ rest) = Some (''%s'', [])"
    by (simp add: simpleAt_def startsWith_def)
  have no: "simpleAt (drop j (lit @ ''%s'' @ rest)) = None" if "j < length lit" for j
    using tokenFree_D [OF free that] by (rule not_simpleBegins)
  from exec_at_first [of lit simpleAt "''%s'' @ rest" "(''%s'', [])", OF no a]
  have e: "exec simpleAt (lit @ ''%s'' @ rest) = Some (length lit, ''%s'', [])" .
  have sp: "substitute f template (argAt args (int index)) (int (Suc index)) ''%s''
      = placeholderValue f args (Suc index) (int (Suc index)) ''%s'' template"
    using substitute_placeholder [of f template args "Suc index" "int (Suc index)" "''%s''"]
    by simp
  have unf: "simpleFrom f template args index (lit @ ''%s'' @ rest) =
      (case substitute f template (argAt args (int index)) (int (Suc index)) ''%s'' of
         (n, l) \<Rightarrow>
           (case simpleFrom f template args (Suc index)
                   (drop (length lit + length ''%s'') (lit @ ''%s'' @ rest)) of
              (ns, ls) \<Rightarrow>
                ((if 0 < length lit then [Text (take (length lit) (lit @ ''%s'' @ rest))] else [])
                 @ [n] @ ns, l @ ls)))"
    by (subst simpleFrom.simps) (simp only: e option.case prod.case)
  show ?thesis
    unfolding unf sp
    by (simp split: prod.splits)
qed

lemma numbered_end:
  assumes free: "tokenFree numberedBegins (length lit) lit"
  shows "numberedFrom f template args lit = (if lit \<noteq> [] then [Text lit] else [], [])"
proof -
  have "exec numberedAt lit = None"
  proof (rule exec_None_I)
    fix j assume "j \<le> length lit"
    show "numberedAt (drop j lit) = None"
    proof (cases "j = length lit")
      case True
      then show ?thesis by (simp add: numberedAt_def)
    next
      case False
      with \<open>j \<le> length lit\<close> have "j < length lit" by simp
      from tokenFree_D [OF free this] show ?thesis by (rule not_numberedBegins)
    qed
  qed
  then show ?thesis by (subst numberedFrom.simps) simp
qed

lemma simple_end:
  assumes free: "tokenFree simpleBegins (length lit) lit"
  shows "simpleFrom f template args index lit = (if lit \<noteq> [] then [Text lit] else [], [])"
proof -
  have "exec simpleAt lit = None"
  proof (rule exec_None_I)
    fix j assume "j \<le> length lit"
    show "simpleAt (drop j lit) = None"
    proof (cases "j = length lit")
      case True
      then show ?thesis by (simp add: simpleAt_def startsWith_def)
    next
      case False
      with \<open>j \<le> length lit\<close> have "j < length lit" by simp
      from tokenFree_D [OF free this] show ?thesis by (rule not_simpleBegins)
    qed
  qed
  then show ?thesis by (subst simpleFrom.simps) simp
qed

lemma exec_cases:
  fixes at :: "string \<Rightarrow> (string \<times> string) option"
  shows "(\<forall>j<length s. at (drop j s) = None)
   \<or> (\<exists>i m g. i \<le> length s \<and> at (drop i s) = Some (m, g) \<and> (\<forall>j<i. at (drop j s) = None))"
proof (cases "exec at s")
  case None
  from exec_None_D [OF None] show ?thesis by simp
next
  case (Some r)
  obtain i m g where "r = (i, m, g)" by (cases r) auto
  with Some have e: "exec at s = Some (i, m, g)" by simp
  from exec_Some [OF e] exec_least [OF e] show ?thesis by blast
qed

lemma numbered_cover:
  "tokenFree numberedBegins (length s) s
   \<or> (\<exists>lit ds rest. s = lit @ ''%'' @ ds @ ''$s'' @ rest \<and> ds \<noteq> [] \<and> list_all isDigit ds
        \<and> tokenFree numberedBegins (length lit) s)"
proof -
  from exec_cases [of s numberedAt]
  consider "\<forall>j<length s. numberedAt (drop j s) = None"
    | i m g where "i \<le> length s" "numberedAt (drop i s) = Some (m, g)"
        "\<forall>j<i. numberedAt (drop j s) = None"
    by blast
  then show ?thesis
  proof cases
    case 1
    then have "tokenFree numberedBegins (length s) s"
      by (simp add: tokenFree_def numberedBegins_iff)
    then show ?thesis ..
  next
    case 2
    note m = numberedAt_SomeD(1) [OF 2(2)] and ne = numberedAt_SomeD(2) [OF 2(2)]
      and all = numberedAt_SomeD(3) [OF 2(2)] and tk = numberedAt_SomeD(5) [OF 2(2)]
    have "s = take i s @ take (length m) (drop i s) @ drop (length m) (drop i s)"
      by (simp only: append_take_drop_id)
    with tk m have s: "s = take i s @ ''%'' @ g @ ''$s'' @ drop (length m) (drop i s)"
      by simp
    from 2(1,3) have "tokenFree numberedBegins (length (take i s)) s"
      by (simp add: tokenFree_def numberedBegins_iff)
    with s ne all show ?thesis by blast
  qed
qed

lemma simple_cover:
  "tokenFree simpleBegins (length s) s
   \<or> (\<exists>lit rest. s = lit @ ''%s'' @ rest \<and> tokenFree simpleBegins (length lit) s)"
proof -
  have iff: "simpleBegins x \<longleftrightarrow> simpleAt x \<noteq> None" for x
    by (simp add: simpleBegins_def simpleAt_def)
  from exec_cases [of s simpleAt]
  consider "\<forall>j<length s. simpleAt (drop j s) = None"
    | i m g where "i \<le> length s" "simpleAt (drop i s) = Some (m, g)"
        "\<forall>j<i. simpleAt (drop j s) = None"
    by blast
  then show ?thesis
  proof cases
    case 1
    then have "tokenFree simpleBegins (length s) s"
      by (simp add: tokenFree_def iff)
    then show ?thesis ..
  next
    case 2
    note m = simpleAt_SomeD(1) [OF 2(2)] and tk = simpleAt_SomeD(3) [OF 2(2)]
    have "s = take i s @ take (length m) (drop i s) @ drop (length m) (drop i s)"
      by (simp only: append_take_drop_id)
    with tk m have s: "s = take i s @ ''%s'' @ drop (length m) (drop i s)"
      by simp
    from 2(1,3) have "tokenFree simpleBegins (length (take i s)) s"
      by (simp add: tokenFree_def iff)
    with s show ?thesis by blast
  qed
qed

section \<open>Empty arguments\<close>

lemma substitute_blank:
  "substitute f t (blank v) shown token = substitute f t v shown token"
  by (auto simp: substitute_def blank_def Let_def split: option.splits part.splits)

lemma substitute_blank_eq:
  "blank v = blank v' \<Longrightarrow> substitute f t v shown token = substitute f t v' shown token"
  by (metis substitute_blank)

lemma numberedFrom_blank:
  "(\<And>i. blank (argAt args i) = blank (argAt args' i))
    \<Longrightarrow> numberedFrom f template args rest = numberedFrom f template args' rest"
proof (induction f template args rest rule: numberedFrom.induct)
  case (1 f template args rest)
  show ?case
  proof (cases "exec numberedAt rest")
    case None
    then show ?thesis
      by (simp add: numberedFrom.simps [of _ template _ rest])
  next
    case (Some r)
    obtain i token digits where r: "r = (i, token, digits)" by (cases r) auto
    define k where "k = int (parseInt digits) - 1"
    have s: "substitute f template (argAt args k) k token
           = substitute f template (argAt args' k) k token"
      by (rule substitute_blank_eq) (rule "1.prems")
    obtain n l where nl: "substitute f template (argAt args k) k token = (n, l)"
      by (cases "substitute f template (argAt args k) k token") auto
    from "1.IH" [OF Some [unfolded r] refl refl nl [unfolded k_def, symmetric] "1.prems"]
    have "numberedFrom f template args (drop (i + length token) rest)
        = numberedFrom f template args' (drop (i + length token) rest)" .
    with Some r s nl show ?thesis
      by (simp add: numberedFrom.simps [of _ template _ rest] k_def)
  qed
qed

lemma simpleFrom_blank:
  "(\<And>i. blank (argAt args i) = blank (argAt args' i))
    \<Longrightarrow> simpleFrom f template args index rest = simpleFrom f template args' index rest"
proof (induction f template args index rest rule: simpleFrom.induct)
  case (1 f template args index rest)
  show ?case
  proof (cases "exec simpleAt rest")
    case None
    then show ?thesis
      by (simp add: simpleFrom.simps [of _ template _ index rest])
  next
    case (Some r)
    obtain i token grp where r: "r = (i, token, grp)" by (cases r) auto
    have s: "substitute f template (argAt args (int index)) (int (Suc index)) ''%s''
           = substitute f template (argAt args' (int index)) (int (Suc index)) ''%s''"
      by (rule substitute_blank_eq) (rule "1.prems")
    obtain n l where nl: "substitute f template (argAt args (int index)) (int (Suc index)) ''%s''
        = (n, l)"
      by (cases "substitute f template (argAt args (int index)) (int (Suc index)) ''%s''") auto
    from "1.IH" [OF Some [unfolded r] refl refl nl [symmetric] "1.prems"]
    have "simpleFrom f template args (Suc index) (drop (i + length token) rest)
        = simpleFrom f template args' (Suc index) (drop (i + length token) rest)" .
    with Some r s nl show ?thesis
      by (simp add: simpleFrom.simps [of _ template _ index rest])
  qed
qed

lemma numbered_example:
  "numberedSubstitution f ''<%1$s>'' [PString []] =
     ([Text ''<'', Text ''%1$s'', Text ''>''], [Warn ''Missing argument 0 for template \"<%1$s>\"''])"
  by (simp add: numberedSubstitution_def numberedFrom.simps numberedAt_def startsWith_def
      isDigit_def substitute_def argAt_def parseInt_def Let_def showInt_def showNat.simps
      digitChar_def)

lemma simple_example:
  "simpleSubstitution f ''<%s>'' [PString []] =
     ([Text ''<'', Text ''%s'', Text ''>''], [Warn ''Missing argument 1 for template \"<%s>\"''])"
  by (simp add: simpleSubstitution_def simpleFrom.simps simpleAt_def startsWith_def
      substitute_def argAt_def Let_def showInt_def showNat.simps digitChar_def)

lemma blank_trailing:
  "blank (argAt [PString ''a'', PString []] i) = blank (argAt [PString ''a''] i)"
proof -
  consider "i = 0" | "i = 1" | "i < 0 \<or> 2 \<le> i" by arith
  then show ?thesis by cases (auto simp: argAt_def blank_def)
qed

lemma placeholder_missing:
  assumes "blank (argAt args (int n - 1)) = None"
  shows "placeholderValue f args n shown token template =
     (Text token,
      [Warn (''Missing argument '' @ showInt shown @ '' for template \"'' @ template @ ''\"'')])"
proof -
  have "placeholderValue f args n shown token template
      = substitute f template (blank (argAt args (int n - 1))) shown token"
    by (simp only: substitute_blank substitute_placeholder)
  then show ?thesis by (simp add: assms substitute_def)
qed

lemma numbered_missing:
  assumes "tokenFree numberedBegins (length lit) (lit @ ''%'' @ ds @ ''$s'' @ rest)"
    and "ds \<noteq> []" and "list_all isDigit ds"
    and "blank (argAt args (int (parseInt ds) - 1)) = None"
  shows "numberedFrom f template args (lit @ ''%'' @ ds @ ''$s'' @ rest) =
       (case numberedFrom f template args rest of
          (ns, ls) \<Rightarrow>
            ((if lit \<noteq> [] then [Text lit] else []) @ Text (''%'' @ ds @ ''$s'') # ns,
             Warn (''Missing argument '' @ showInt (int (parseInt ds) - 1) @ '' for template \"''
                   @ template @ ''\"'') # ls))"
  unfolding numbered_step [OF assms(1-3)] placeholder_missing [OF assms(4)]
  by (simp split: prod.splits)

lemma simple_missing:
  assumes "tokenFree simpleBegins (length lit) (lit @ ''%s'' @ rest)"
    and "blank (argAt args (int index)) = None"
  shows "simpleFrom f template args index (lit @ ''%s'' @ rest) =
       (case simpleFrom f template args (Suc index) rest of
          (ns, ls) \<Rightarrow>
            ((if lit \<noteq> [] then [Text lit] else []) @ Text ''%s'' # ns,
             Warn (''Missing argument '' @ showInt (int (Suc index)) @ '' for template \"''
                   @ template @ ''\"'') # ls))"
proof -
  from assms(2) have "blank (argAt args (int (Suc index) - 1)) = None" by simp
  from placeholder_missing [OF this] show ?thesis
    unfolding simple_step [OF assms(1)] by (simp split: prod.splits)
qed

lemma interior_example:
  "numberedSubstitution f ''%1$s-%2$s'' [PString [], PString ''b''] =
     ([Text ''%1$s'', Text ''-'', Text ''b''],
      [Warn ''Missing argument 0 for template \"%1$s-%2$s\"''])"
  by (simp add: numberedSubstitution_def numberedFrom.simps numberedAt_def startsWith_def
      isDigit_def substitute_def argAt_def parseInt_def Let_def showInt_def showNat.simps
      digitChar_def)

text \<open>
  C10: both substitutions depend on the arguments only up to \<open>blank\<close>, which takes the empty
  string for a missing argument; for an empty string the token itself is emitted and the
  warning logged, so \<^verbatim>\<open><%1$s>\<close> and \<^verbatim>\<open><%s>\<close> keep their token where substituting the empty
  string would leave \<^verbatim>\<open><>\<close>. Wherever the token stands in the template and wherever the
  argument stands in the list, a token whose argument is missing or the empty string gives
  the token and the same warning.
\<close>

theorem C10_empty_argument:
  "((\<forall>i. blank (argAt args i) = blank (argAt args' i)) \<longrightarrow>
      numberedSubstitution f template args = numberedSubstitution f template args'
      \<and> simpleSubstitution f template args = simpleSubstitution f template args')
   \<and> numberedSubstitution f ''<%1$s>'' [PString []] =
       ([Text ''<'', Text ''%1$s'', Text ''>''],
        [Warn ''Missing argument 0 for template \"<%1$s>\"''])
   \<and> simpleSubstitution f ''<%s>'' [PString []] =
       ([Text ''<'', Text ''%s'', Text ''>''],
        [Warn ''Missing argument 1 for template \"<%s>\"''])
   \<and> concat (map textContent (fst (numberedSubstitution f ''<%1$s>'' [PString []]))) \<noteq> ''<>''
   \<and> concat (map textContent (fst (simpleSubstitution f ''<%s>'' [PString []]))) \<noteq> ''<>''
   \<and> (tokenFree numberedBegins (length lit) (lit @ ''%'' @ ds @ ''$s'' @ rest)
        \<and> ds \<noteq> [] \<and> list_all isDigit ds \<and> parseInt ds \<le> 2 ^ 53
        \<and> blank (argAt args (int (parseInt ds) - 1)) = None \<longrightarrow>
      numberedFrom f template args (lit @ ''%'' @ ds @ ''$s'' @ rest) =
        (case numberedFrom f template args rest of
           (ns, ls) \<Rightarrow>
             ((if lit \<noteq> [] then [Text lit] else []) @ Text (''%'' @ ds @ ''$s'') # ns,
              Warn (''Missing argument '' @ showInt (int (parseInt ds) - 1)
                    @ '' for template \"'' @ template @ ''\"'') # ls)))
   \<and> (tokenFree simpleBegins (length lit) (lit @ ''%s'' @ rest) \<and> index < 2 ^ 53
        \<and> blank (argAt args (int index)) = None \<longrightarrow>
      simpleFrom f template args index (lit @ ''%s'' @ rest) =
        (case simpleFrom f template args (Suc index) rest of
           (ns, ls) \<Rightarrow>
             ((if lit \<noteq> [] then [Text lit] else []) @ Text ''%s'' # ns,
              Warn (''Missing argument '' @ showInt (int (Suc index))
                    @ '' for template \"'' @ template @ ''\"'') # ls)))
   \<and> numberedSubstitution f ''%1$s-%2$s'' [PString [], PString ''b''] =
       ([Text ''%1$s'', Text ''-'', Text ''b''],
        [Warn ''Missing argument 0 for template \"%1$s-%2$s\"''])"
proof -
  have a: "(\<forall>i. blank (argAt args i) = blank (argAt args' i)) \<longrightarrow>
      numberedSubstitution f template args = numberedSubstitution f template args'
      \<and> simpleSubstitution f template args = simpleSubstitution f template args'"
    unfolding numberedSubstitution_def simpleSubstitution_def
    using numberedFrom_blank [of args args' f template template]
      simpleFrom_blank [of args args' f template 0 template]
    by blast
  have b: "concat (map textContent (fst (numberedSubstitution f ''<%1$s>'' [PString []]))) \<noteq> ''<>''"
    "concat (map textContent (fst (simpleSubstitution f ''<%s>'' [PString []]))) \<noteq> ''<>''"
    by (simp_all add: numbered_example simple_example)
  have n: "tokenFree numberedBegins (length lit) (lit @ ''%'' @ ds @ ''$s'' @ rest)
        \<and> ds \<noteq> [] \<and> list_all isDigit ds \<and> parseInt ds \<le> 2 ^ 53
        \<and> blank (argAt args (int (parseInt ds) - 1)) = None \<longrightarrow>
      numberedFrom f template args (lit @ ''%'' @ ds @ ''$s'' @ rest) =
        (case numberedFrom f template args rest of
           (ns, ls) \<Rightarrow>
             ((if lit \<noteq> [] then [Text lit] else []) @ Text (''%'' @ ds @ ''$s'') # ns,
              Warn (''Missing argument '' @ showInt (int (parseInt ds) - 1)
                    @ '' for template \"'' @ template @ ''\"'') # ls))"
    by (intro impI, elim conjE, rule numbered_missing)
  have s: "tokenFree simpleBegins (length lit) (lit @ ''%s'' @ rest) \<and> index < 2 ^ 53
        \<and> blank (argAt args (int index)) = None \<longrightarrow>
      simpleFrom f template args index (lit @ ''%s'' @ rest) =
        (case simpleFrom f template args (Suc index) rest of
           (ns, ls) \<Rightarrow>
             ((if lit \<noteq> [] then [Text lit] else []) @ Text ''%s'' # ns,
              Warn (''Missing argument '' @ showInt (int (Suc index))
                    @ '' for template \"'' @ template @ ''\"'') # ls))"
    by (intro impI, elim conjE, rule simple_missing)
  show ?thesis
    by (intro conjI a numbered_example simple_example b n s interior_example)
qed

theorem C10_empty_argument_witness:
  "(\<forall>i. blank (argAt [PString ''a'', PString []] i) = blank (argAt [PString ''a''] i))
   \<and> simpleSubstitution (formatComponent emptyTable) ''<%s> %s'' [PString ''a'', PString []]
     = simpleSubstitution (formatComponent emptyTable) ''<%s> %s'' [PString ''a'']
   \<and> simpleSubstitution (formatComponent emptyTable) ''<%s> %s'' [PString ''a'']
     = ([Text ''<'', Text ''a'', Text ''> '', Text ''%s''],
        [Warn ''Missing argument 2 for template \"<%s> %s\"''])
   \<and> tokenFree numberedBegins (length ''<'') (''<'' @ ''%'' @ ''1'' @ ''$s'' @ ''-%2$s'')
   \<and> list_all isDigit ''1'' \<and> parseInt ''1'' \<le> 2 ^ 53
   \<and> blank (argAt [PString [], PString ''b''] (int (parseInt ''1'') - 1)) = None
   \<and> numberedFrom (formatComponent emptyTable) ''t'' [PString [], PString ''b'']
        (''<'' @ ''%'' @ ''1'' @ ''$s'' @ ''-%2$s'')
     = ([Text ''<'', Text ''%1$s'', Text ''-'', Text ''b''],
        [Warn ''Missing argument 0 for template \"t\"''])"
proof -
  have "simpleSubstitution (formatComponent emptyTable) ''<%s> %s'' [PString ''a'']
     = ([Text ''<'', Text ''a'', Text ''> '', Text ''%s''],
        [Warn ''Missing argument 2 for template \"<%s> %s\"''])"
    by (simp add: simpleSubstitution_def simpleFrom.simps simpleAt_def startsWith_def
        substitute_def argAt_def Let_def showInt_def showNat.simps digitChar_def)
  with C10_empty_argument [of "[PString ''a'', PString []]" "[PString ''a'']"
      "formatComponent emptyTable" "''<%s> %s''"] blank_trailing
  have old: "(\<forall>i. blank (argAt [PString ''a'', PString []] i) = blank (argAt [PString ''a''] i))
   \<and> simpleSubstitution (formatComponent emptyTable) ''<%s> %s'' [PString ''a'', PString []]
     = simpleSubstitution (formatComponent emptyTable) ''<%s> %s'' [PString ''a'']
   \<and> simpleSubstitution (formatComponent emptyTable) ''<%s> %s'' [PString ''a'']
     = ([Text ''<'', Text ''a'', Text ''> '', Text ''%s''],
        [Warn ''Missing argument 2 for template \"<%s> %s\"''])"
    by simp
  have h: "tokenFree numberedBegins (length ''<'') (''<'' @ ''%'' @ ''1'' @ ''$s'' @ ''-%2$s'')"
    by (simp add: tokenFree_def numberedBegins_iff lessThan_Suc numberedAt_def isDigit_def
        startsWith_def)
  have d: "list_all isDigit ''1''" by (simp add: isDigit_def)
  have p: "parseInt ''1'' = 1" by (simp add: parseInt_def)
  have m: "blank (argAt [PString [], PString ''b''] (int (parseInt ''1'') - 1)) = None"
    by (simp add: p argAt_def blank_def)
  have r: "numberedFrom (formatComponent emptyTable) ''t'' [PString [], PString ''b''] ''-%2$s''
     = ([Text ''-'', Text ''b''], [])"
    by (simp add: numberedFrom.simps numberedAt_def startsWith_def isDigit_def substitute_def
        argAt_def parseInt_def Let_def)
  from C10_empty_argument [where f = "formatComponent emptyTable" and template = "''t''"
      and args = "[PString [], PString ''b'']" and lit = "''<''" and ds = "''1''"
      and rest = "''-%2$s''"] h d p m r
  have new: "numberedFrom (formatComponent emptyTable) ''t'' [PString [], PString ''b'']
        (''<'' @ ''%'' @ ''1'' @ ''$s'' @ ''-%2$s'')
     = ([Text ''<'', Text ''%1$s'', Text ''-'', Text ''b''],
        [Warn ''Missing argument 0 for template \"t\"''])"
    by (simp add: showInt_def showNat.simps digitChar_def)
  from old h d p m new show ?thesis by simp
qed

section \<open>Translations\<close>

lemma numbered_beyond:
  assumes "tokenFree numberedBegins (length lit) (lit @ ''%'' @ ds @ ''$s'' @ rest)"
    and "ds \<noteq> []" and "list_all isDigit ds" and "length args < parseInt ds"
  shows "fst (numberedFrom f template args (lit @ ''%'' @ ds @ ''$s'' @ rest)) =
       (if lit \<noteq> [] then [Text lit] else []) @ Text (''%'' @ ds @ ''$s'')
         # fst (numberedFrom f template args rest)"
  unfolding numbered_step [OF assms(1-3)] using assms(4)
  by (simp add: placeholderValue_def split: prod.splits)

lemma gate:
  "key \<noteq> [] \<Longrightarrow> key \<noteq> ''%s'' \<Longrightarrow> table key = Some (Template template) \<Longrightarrow> template \<noteq> [] \<Longrightarrow>
     formatTranslation f table key args =
       (if includesStr template ''$s'' then numberedSubstitution f template args
        else simpleSubstitution f template args)"
  by (simp add: formatTranslation_def)

lemma swap_example:
  "formatTranslation f demoTable ''swap'' [PString ''a'', PString ''b'']
     = ([Text ''b'', Text '' '', Text ''a''], [])"
  by (simp add: formatTranslation_def demoTable_def startsWith_def numberedSubstitution_def
      numberedFrom.simps numberedAt_def isDigit_def substitute_def argAt_def parseInt_def Let_def)

lemma price_example:
  "formatTranslation (formatComponent demoTable) demoTable ''price'' [PString ''a'']
     = ([Text ''$s %s''], [])
   \<and> exec numberedAt ''$s %s'' = None
   \<and> simpleSubstitution (formatComponent demoTable) ''$s %s'' [PString ''a'']
     = ([Text ''$s '', Text ''a''], [])"
  by (simp add: formatTranslation_def demoTable_def startsWith_def numberedSubstitution_def
      numberedFrom.simps numberedAt_def isDigit_def substitute_def argAt_def parseInt_def Let_def
      simpleSubstitution_def simpleFrom.simps simpleAt_def)

lemma percent_example:
  "formatTranslation f demoTable ''percent'' [PString ''5''] = ([Text ''5'', Text ''%%''], [])"
  by (simp add: formatTranslation_def demoTable_def startsWith_def simpleSubstitution_def
      simpleFrom.simps simpleAt_def substitute_def argAt_def Let_def)

lemma mixed_example:
  "formatTranslation f demoTable ''mixed'' [PString ''a'', PString ''b'']
     = ([Text ''a'', Text '' %s''], [])"
  by (simp add: formatTranslation_def demoTable_def startsWith_def numberedSubstitution_def
      numberedFrom.simps numberedAt_def isDigit_def substitute_def argAt_def parseInt_def Let_def)

text \<open>
  C5, as stated, fails: the template \<^verbatim>\<open>$s %s\<close> holds no \<^verbatim>\<open>%N$s\<close> token, and still the
  numbered substitution runs, which leaves the template as it is; the sequential one would
  have put the argument in.
\<close>

theorem C5_counterexample:
  "formatTranslation (formatComponent demoTable) demoTable ''price'' [PString ''a'']
     = ([Text ''$s %s''], [])
   \<and> exec numberedAt ''$s %s'' = None
   \<and> simpleSubstitution (formatComponent demoTable) ''$s %s'' [PString ''a'']
     = ([Text ''$s '', Text ''a''], [])"
  by (rule price_example)

text \<open>
  C5, amended: for a key other than the empty string and \<^verbatim>\<open>%s\<close> whose template is a string
  that is not empty, \<^verbatim>\<open>formatTranslation\<close> runs the numbered substitution exactly when the
  template contains \<^verbatim>\<open>$s\<close>, and the sequential one otherwise. Each substitution reads the
  template from left to right. Where the text read holds a first token, the text before it
  is one text node, whatever it holds, other percent signs and tokens of the other form
  included; the token gives the argument it selects, or itself and a warning when the index
  is out of range or the argument is missing; the text after the token is read in the same
  way. Text in which no token begins is one text node. Every string is of one of these two
  forms, so the two equations give the result for every template. The numbered token
  \<^verbatim>\<open>%N$s\<close> selects the argument with the 1-based index N; the warning for it prints N - 1,
  digit by digit for N up to \<open>2\<^sup>5\<^sup>3\<close>, and whatever N is, a token whose index is beyond
  the arguments stays as it is. The sequential token \<^verbatim>\<open>%s\<close> takes the next argument.
  \<^verbatim>\<open>%2$s %1$s\<close> with the arguments a and b gives "b a", \<^verbatim>\<open>%s%%\<close> with 5 gives "5%%",
  and \<^verbatim>\<open>%1$s %s\<close> with a and b gives "a %s".
\<close>

theorem C5_formatTranslation:
  "(key \<noteq> [] \<and> key \<noteq> ''%s'' \<and> table key = Some (Template template) \<and> template \<noteq> [] \<longrightarrow>
      formatTranslation f table key args =
        (if includesStr template ''$s'' then numberedSubstitution f template args
         else simpleSubstitution f template args))
   \<and> numberedSubstitution f template args = numberedFrom f template args template
   \<and> simpleSubstitution f template args = simpleFrom f template args 0 template
   \<and> (tokenFree numberedBegins (length lit) (lit @ ''%'' @ ds @ ''$s'' @ rest)
        \<and> ds \<noteq> [] \<and> list_all isDigit ds \<and> parseInt ds \<le> 2 ^ 53 \<longrightarrow>
      numberedFrom f template args (lit @ ''%'' @ ds @ ''$s'' @ rest) =
        (case placeholderValue f args (parseInt ds) (int (parseInt ds) - 1) (''%'' @ ds @ ''$s'')
                template of
           (n, l) \<Rightarrow>
             (case numberedFrom f template args rest of
                (ns, ls) \<Rightarrow> ((if lit \<noteq> [] then [Text lit] else []) @ n # ns, l @ ls))))
   \<and> (tokenFree numberedBegins (length lit) (lit @ ''%'' @ ds @ ''$s'' @ rest)
        \<and> ds \<noteq> [] \<and> list_all isDigit ds
        \<and> length args < parseInt ds \<and> length args < 2 ^ 32 \<longrightarrow>
      fst (numberedFrom f template args (lit @ ''%'' @ ds @ ''$s'' @ rest)) =
        (if lit \<noteq> [] then [Text lit] else []) @ Text (''%'' @ ds @ ''$s'')
          # fst (numberedFrom f template args rest))
   \<and> (tokenFree simpleBegins (length lit) (lit @ ''%s'' @ rest) \<and> index < 2 ^ 53 \<longrightarrow>
      simpleFrom f template args index (lit @ ''%s'' @ rest) =
        (case placeholderValue f args (Suc index) (int (Suc index)) ''%s'' template of
           (n, l) \<Rightarrow>
             (case simpleFrom f template args (Suc index) rest of
                (ns, ls) \<Rightarrow> ((if lit \<noteq> [] then [Text lit] else []) @ n # ns, l @ ls))))
   \<and> (tokenFree numberedBegins (length lit) lit \<longrightarrow>
      numberedFrom f template args lit = (if lit \<noteq> [] then [Text lit] else [], []))
   \<and> (tokenFree simpleBegins (length lit) lit \<longrightarrow>
      simpleFrom f template args index lit = (if lit \<noteq> [] then [Text lit] else [], []))
   \<and> (tokenFree numberedBegins (length s) s
       \<or> (\<exists>lit ds rest. s = lit @ ''%'' @ ds @ ''$s'' @ rest \<and> ds \<noteq> [] \<and> list_all isDigit ds
             \<and> tokenFree numberedBegins (length lit) s))
   \<and> (tokenFree simpleBegins (length s) s
       \<or> (\<exists>lit rest. s = lit @ ''%s'' @ rest \<and> tokenFree simpleBegins (length lit) s))
   \<and> formatTranslation f demoTable ''swap'' [PString ''a'', PString ''b'']
       = ([Text ''b'', Text '' '', Text ''a''], [])
   \<and> concat (map textContent
        (fst (formatTranslation f demoTable ''swap'' [PString ''a'', PString ''b'']))) = ''b a''
   \<and> formatTranslation f demoTable ''percent'' [PString ''5''] = ([Text ''5'', Text ''%%''], [])
   \<and> formatTranslation f demoTable ''mixed'' [PString ''a'', PString ''b'']
       = ([Text ''a'', Text '' %s''], [])"
proof -
  have g: "key \<noteq> [] \<and> key \<noteq> ''%s'' \<and> table key = Some (Template template) \<and> template \<noteq> [] \<longrightarrow>
      formatTranslation f table key args =
        (if includesStr template ''$s'' then numberedSubstitution f template args
         else simpleSubstitution f template args)"
    using gate [of key table template f args] by (intro impI) (elim conjE)
  have d: "numberedSubstitution f template args = numberedFrom f template args template"
    "simpleSubstitution f template args = simpleFrom f template args 0 template"
    by (simp_all add: numberedSubstitution_def simpleSubstitution_def)
  have n: "tokenFree numberedBegins (length lit) (lit @ ''%'' @ ds @ ''$s'' @ rest)
        \<and> ds \<noteq> [] \<and> list_all isDigit ds \<and> parseInt ds \<le> 2 ^ 53 \<longrightarrow>
      numberedFrom f template args (lit @ ''%'' @ ds @ ''$s'' @ rest) =
        (case placeholderValue f args (parseInt ds) (int (parseInt ds) - 1) (''%'' @ ds @ ''$s'')
                template of
           (n, l) \<Rightarrow>
             (case numberedFrom f template args rest of
                (ns, ls) \<Rightarrow> ((if lit \<noteq> [] then [Text lit] else []) @ n # ns, l @ ls)))"
    by (intro impI, elim conjE, rule numbered_step)
  have nb: "tokenFree numberedBegins (length lit) (lit @ ''%'' @ ds @ ''$s'' @ rest)
        \<and> ds \<noteq> [] \<and> list_all isDigit ds
        \<and> length args < parseInt ds \<and> length args < 2 ^ 32 \<longrightarrow>
      fst (numberedFrom f template args (lit @ ''%'' @ ds @ ''$s'' @ rest)) =
        (if lit \<noteq> [] then [Text lit] else []) @ Text (''%'' @ ds @ ''$s'')
          # fst (numberedFrom f template args rest)"
    by (intro impI, elim conjE, rule numbered_beyond)
  have si: "tokenFree simpleBegins (length lit) (lit @ ''%s'' @ rest) \<and> index < 2 ^ 53 \<longrightarrow>
      simpleFrom f template args index (lit @ ''%s'' @ rest) =
        (case placeholderValue f args (Suc index) (int (Suc index)) ''%s'' template of
           (n, l) \<Rightarrow>
             (case simpleFrom f template args (Suc index) rest of
                (ns, ls) \<Rightarrow> ((if lit \<noteq> [] then [Text lit] else []) @ n # ns, l @ ls)))"
    by (intro impI, elim conjE, rule simple_step)
  have ne: "tokenFree numberedBegins (length lit) lit \<longrightarrow>
      numberedFrom f template args lit = (if lit \<noteq> [] then [Text lit] else [], [])"
    by (intro impI, rule numbered_end)
  have se: "tokenFree simpleBegins (length lit) lit \<longrightarrow>
      simpleFrom f template args index lit = (if lit \<noteq> [] then [Text lit] else [], [])"
    by (intro impI, rule simple_end)
  have ex: "concat (map textContent
        (fst (formatTranslation f demoTable ''swap'' [PString ''a'', PString ''b'']))) = ''b a''"
    by (simp add: swap_example)
  show ?thesis
    by (intro conjI g d n nb si ne se numbered_cover simple_cover swap_example ex
        percent_example mixed_example)
qed

theorem C5_formatTranslation_witness:
  "''percent'' \<noteq> [] \<and> ''percent'' \<noteq> ''%s'' \<and> demoTable ''percent'' = Some (Template ''%s%%'')
   \<and> formatTranslation (formatComponent emptyTable) demoTable ''percent'' [PString ''a'']
      = simpleSubstitution (formatComponent emptyTable) ''%s%%'' [PString ''a'']
   \<and> tokenFree numberedBegins (length ''50% '') (''50% '' @ ''%'' @ ''1'' @ ''$s'' @ '' %s'')
   \<and> list_all isDigit ''1'' \<and> parseInt ''1'' \<le> 2 ^ 53
   \<and> numberedFrom (formatComponent emptyTable) ''t'' [PString ''a'']
        (''50% '' @ ''%'' @ ''1'' @ ''$s'' @ '' %s'')
      = ([Text ''50% '', Text ''a'', Text '' %s''], [])
   \<and> tokenFree simpleBegins (length ''50% '') (''50% '' @ ''%s'' @ ''%%'')
   \<and> simpleFrom (formatComponent emptyTable) ''t'' [PString ''a''] 0 (''50% '' @ ''%s'' @ ''%%'')
      = ([Text ''50% '', Text ''a'', Text ''%%''], [])
   \<and> tokenFree numberedBegins (length '' %s'') '' %s''
   \<and> tokenFree simpleBegins (length ''%%'') ''%%''
   \<and> tokenFree numberedBegins (length ''x'') (''x'' @ ''%'' @ ''99999999999999999999'' @ ''$s'' @ [])
   \<and> list_all isDigit ''99999999999999999999''
   \<and> length [PString ''a''] < parseInt ''99999999999999999999''
   \<and> \<not> parseInt ''99999999999999999999'' \<le> 2 ^ 53
   \<and> fst (numberedFrom (formatComponent emptyTable) ''t'' [PString ''a'']
            (''x'' @ ''%'' @ ''99999999999999999999'' @ ''$s'' @ []))
      = [Text ''x'', Text ''%99999999999999999999$s'']"
proof -
  have h5: "tokenFree numberedBegins (length ''x'')
      (''x'' @ ''%'' @ ''99999999999999999999'' @ ''$s'' @ [])"
    by (simp add: tokenFree_def numberedBegins_iff lessThan_Suc numberedAt_def)
  have d5: "list_all isDigit ''99999999999999999999''" by (simp add: isDigit_def)
  have p5: "parseInt ''99999999999999999999'' = 99999999999999999999"
    by (simp add: parseInt_def)
  have e5: "numberedFrom (formatComponent emptyTable) ''t'' [PString ''a''] [] = ([], [])"
    by (simp add: numberedFrom.simps numberedAt_def)
  from C5_formatTranslation [where template = "''t''" and f = "formatComponent emptyTable"
      and args = "[PString ''a'']" and lit = "''x''" and ds = "''99999999999999999999''"
      and rest = "[]"] h5 d5 p5 e5
  have n5: "fst (numberedFrom (formatComponent emptyTable) ''t'' [PString ''a'']
            (''x'' @ ''%'' @ ''99999999999999999999'' @ ''$s'' @ []))
      = [Text ''x'', Text ''%99999999999999999999$s'']"
    by simp
  have h1: "tokenFree numberedBegins (length ''50% '') (''50% '' @ ''%'' @ ''1'' @ ''$s'' @ '' %s'')"
    by (simp add: tokenFree_def numberedBegins_iff lessThan_Suc numberedAt_def isDigit_def
        startsWith_def)
  have h2: "tokenFree simpleBegins (length ''50% '') (''50% '' @ ''%s'' @ ''%%'')"
    by (simp add: tokenFree_def simpleBegins_def lessThan_Suc startsWith_def)
  have h3: "tokenFree numberedBegins (length '' %s'') '' %s''"
    by (simp add: tokenFree_def numberedBegins_iff lessThan_Suc numberedAt_def isDigit_def
        startsWith_def)
  have h4: "tokenFree simpleBegins (length ''%%'') ''%%''"
    by (simp add: tokenFree_def simpleBegins_def lessThan_Suc startsWith_def)
  have d: "list_all isDigit ''1''" by (simp add: isDigit_def)
  have p: "parseInt ''1'' = 1" by (simp add: parseInt_def)
  have i: "\<not> includesStr ''%s%%'' ''$s''" by (simp add: startsWith_def)
  have t: "demoTable ''percent'' = Some (Template ''%s%%'')" by (simp add: demoTable_def)
  note a = C5_formatTranslation [where key = "''percent''" and table = demoTable
      and template = "''%s%%''" and f = "formatComponent emptyTable"
      and args = "[PString ''a'']"]
  note b = C5_formatTranslation [where template = "''t''" and f = "formatComponent emptyTable"
      and args = "[PString ''a'']" and lit = "''50% ''" and ds = "''1''"
      and rest = "'' %s''" and index = 0]
  note b' = C5_formatTranslation [where template = "''t''" and f = "formatComponent emptyTable"
      and args = "[PString ''a'']" and lit = "''50% ''"
      and rest = "''%%''" and index = 0]
  note c = C5_formatTranslation [where template = "''t''" and f = "formatComponent emptyTable"
      and args = "[PString ''a'']" and lit = "'' %s''"]
  note c' = C5_formatTranslation [where template = "''t''" and f = "formatComponent emptyTable"
      and args = "[PString ''a'']" and lit = "''%%''" and index = 1]
  from a i t have g: "formatTranslation (formatComponent emptyTable) demoTable ''percent''
        [PString ''a'']
      = simpleSubstitution (formatComponent emptyTable) ''%s%%'' [PString ''a'']"
    by simp
  from c h3 have e1: "numberedFrom (formatComponent emptyTable) ''t'' [PString ''a''] '' %s''
      = ([Text '' %s''], [])" by simp
  from c' h4 have e2: "simpleFrom (formatComponent emptyTable) ''t'' [PString ''a''] 1 ''%%''
      = ([Text ''%%''], [])" by simp
  from b h1 d p e1 have n: "numberedFrom (formatComponent emptyTable) ''t'' [PString ''a'']
        (''50% '' @ ''%'' @ ''1'' @ ''$s'' @ '' %s'')
      = ([Text ''50% '', Text ''a'', Text '' %s''], [])"
    by (simp add: placeholderValue_def)
  from b' h2 e2 have s: "simpleFrom (formatComponent emptyTable) ''t'' [PString ''a''] 0
        (''50% '' @ ''%s'' @ ''%%'')
      = ([Text ''50% '', Text ''a'', Text ''%%''], [])"
    by (simp add: placeholderValue_def)
  from g t h1 h2 h3 h4 d p n s h5 d5 p5 n5 show ?thesis by simp
qed

section \<open>Validated values are rendered\<close>

lemma andThen_Inr: "andThen r k = Inr u \<longleftrightarrow> (\<exists>v. r = Inr v) \<and> k = Inr u"
  by (cases r) (auto simp: andThen_def)

lemma typeof_string: "typeof v = ''string'' \<longleftrightarrow> (\<exists>s. v = JStr s)"
  by (cases v) auto

lemma typeof_boolean: "typeof v = ''boolean'' \<longleftrightarrow> (\<exists>b. v = JBool b)"
  by (cases v) auto

lemma string_field:
  "\<not> (has c k \<and> typeofProp (get c k) \<noteq> ''string'') \<Longrightarrow> asStringField (get c k) \<noteq> None"
  by (cases "get c k") (auto simp: has_def typeofProp_def asStringField_def typeof_string)

lemma bool_field:
  "\<not> (has c k \<and> typeofProp (get c k) \<noteq> ''boolean'') \<Longrightarrow> asBoolField (get c k) \<noteq> None"
  by (cases "get c k") (auto simp: has_def typeofProp_def asBoolField_def typeof_boolean)

lemma ownFields_checked:
  assumes "assertOwnFields c p = Inr ()"
  shows "\<not> (has c ''text'' \<and> typeofProp (get c ''text'') \<noteq> ''string'')"
    and "\<not> (has c ''translate'' \<and> typeofProp (get c ''translate'') \<noteq> ''string'')"
    and "\<not> (has c ''color'' \<and> typeofProp (get c ''color'') \<noteq> ''string'')"
    and "\<not> (has c ''bold'' \<and> typeofProp (get c ''bold'') \<noteq> ''boolean'')"
    and "\<not> (has c ''italic'' \<and> typeofProp (get c ''italic'') \<noteq> ''boolean'')"
    and "\<not> (has c ''underlined'' \<and> typeofProp (get c ''underlined'') \<noteq> ''boolean'')"
    and "\<not> (has c ''strikethrough'' \<and> typeofProp (get c ''strikethrough'') \<noteq> ''boolean'')"
    and "\<not> (has c ''obfuscated'' \<and> typeofProp (get c ''obfuscated'') \<noteq> ''boolean'')"
  using assms by (simp_all add: assertOwnFields_def split: if_splits)

lemma buildComponent_Some:
  "t \<noteq> None \<Longrightarrow> tr \<noteq> None \<Longrightarrow> w \<noteq> None \<Longrightarrow> e \<noteq> None \<Longrightarrow> c \<noteq> None \<Longrightarrow> b \<noteq> None \<Longrightarrow> i \<noteq> None
    \<Longrightarrow> u \<noteq> None \<Longrightarrow> s \<noteq> None \<Longrightarrow> ob \<noteq> None \<Longrightarrow> h \<noteq> None
    \<Longrightarrow> buildComponent t tr w e c b i u s ob h \<noteq> None"
  by (auto simp: buildComponent_def)

lemma validated_typed:
  "assertIsComponent c p = Inr () \<longrightarrow> asComponent c \<noteq> None"
  "assertEach xs pre i = Inr () \<longrightarrow> asParts xs \<noteq> None"
  "assertIsHoverEvent h hp = Inr () \<longrightarrow> (\<exists>hv. h = Some hv \<and> asHoverEvent hv \<noteq> None)"
  "assertIsShowTextHoverEvent t tp = Inr () \<longrightarrow>
     (get t ''action'' = Some (JStr ''show_text'') \<longrightarrow> asHoverEvent t \<noteq> None)"
proof (induction c p and xs pre i and h hp and t tp
    rule: assertIsComponent_assertEach_assertIsHoverEvent_assertIsShowTextHoverEvent.induct)
  case (1 component path)
  show ?case
  proof
    assume ok: "assertIsComponent component path = Inr ()"
    have deep: "\<not> MAX_CHAT_DEPTH < length path"
      using ok by (auto simp: assertIsComponent.simps [of component path] split: if_splits)
    have obj: "\<not> (\<not> truthy component \<or> typeof component \<noteq> ''object'')"
      using ok deep by (auto simp: assertIsComponent.simps [of component path] split: if_splits)
    from ok deep obj have own: "assertOwnFields component path = Inr ()"
      and ex: "\<exists>v. (case get component ''extra'' of
                  None \<Rightarrow> Inr ()
                | Some (JArr xs) \<Rightarrow> assertEach xs (path @ [''extra'']) 0
                | Some other \<Rightarrow>
                    Inl (ComponentError ''Component.extra is not an array'' (path @ [''extra'']))) = Inr v"
      and wi: "\<exists>v. (case get component ''with'' of
                  None \<Rightarrow> Inr ()
                | Some (JArr xs) \<Rightarrow> assertEach xs (path @ [''with'']) 0
                | Some other \<Rightarrow>
                    Inl (ComponentError ''Component.with is not an array'' (path @ [''with'']))) = Inr v"
      and ho: "(if has component ''hoverEvent''
                then assertIsHoverEvent (get component ''hoverEvent'') (path @ [''hoverEvent''])
                else Inr ()) = Inr ()"
      by (auto simp: assertIsComponent.simps [of component path] andThen_Inr)
    have e: "(case get component ''extra'' of
            None \<Rightarrow> Some None
          | Some (JArr xs) \<Rightarrow> map_option Some (asParts xs)
          | Some other \<Rightarrow> None) \<noteq> None"
      using ex "1.IH"(1) [OF deep obj]
      by (auto split: option.splits jv.splits)
    have w: "(case get component ''with'' of
            None \<Rightarrow> Some None
          | Some (JArr xs) \<Rightarrow> map_option Some (asParts xs)
          | Some other \<Rightarrow> None) \<noteq> None"
      using wi "1.IH"(2) [OF deep obj]
      by (auto split: option.splits jv.splits)
    have h: "(case get component ''hoverEvent'' of
            None \<Rightarrow> Some None
          | Some h \<Rightarrow> map_option Some (asHoverEvent h)) \<noteq> None"
      using ho "1.IH"(3) [OF deep obj]
      by (auto simp: has_def split: if_splits option.splits)
    note f = ownFields_checked [OF own]
    have "buildComponent
         (asStringField (get component ''text''))
         (asStringField (get component ''translate''))
         (case get component ''with'' of
            None \<Rightarrow> Some None
          | Some (JArr xs) \<Rightarrow> map_option Some (asParts xs)
          | Some other \<Rightarrow> None)
         (case get component ''extra'' of
            None \<Rightarrow> Some None
          | Some (JArr xs) \<Rightarrow> map_option Some (asParts xs)
          | Some other \<Rightarrow> None)
         (asStringField (get component ''color''))
         (asBoolField (get component ''bold''))
         (asBoolField (get component ''italic''))
         (asBoolField (get component ''underlined''))
         (asBoolField (get component ''strikethrough''))
         (asBoolField (get component ''obfuscated''))
         (case get component ''hoverEvent'' of
            None \<Rightarrow> Some None
          | Some h \<Rightarrow> map_option Some (asHoverEvent h)) \<noteq> None"
      by (intro buildComponent_Some string_field bool_field f e w h)
    with obj show "asComponent component \<noteq> None"
      by (simp add: asComponent.simps [of component])
  qed
next
  case (2 pre i)
  show ?case by simp
next
  case (3 component rest pre i)
  show ?case
  proof (cases "typeof component = ''string''")
    case True
    with "3.IH"(1) show ?thesis
      by (auto simp: typeof_string consOption_def)
  next
    case False
    with "3.IH"(2,3) show ?thesis
      by (auto simp: andThen_Inr consOption_def)
  qed
next
  case (4 path)
  show ?case by simp
next
  case (5 hoverEvent path)
  show ?case
  proof
    assume ok: "assertIsHoverEvent (Some hoverEvent) path = Inr ()"
    then have obj: "\<not> (\<not> truthy hoverEvent \<or> typeof hoverEvent \<noteq> ''object'')"
      by (auto split: if_splits)
    from ok obj obtain action where a: "get hoverEvent ''action'' = Some (JStr action)"
      and v: "action \<in> set VALID_HOVER_EVENTS"
      by (auto split: option.splits jv.splits if_splits)
    have "asHoverEvent hoverEvent \<noteq> None"
    proof (cases "action = ''show_text''")
      case True
      with ok obj a v have "assertIsShowTextHoverEvent hoverEvent path = Inr ()" by simp
      with "5.IH" [OF obj a refl _ True] v a True show ?thesis by simp
    next
      case False
      with a v show ?thesis
        by (auto simp: asHoverEvent.simps [of hoverEvent] VALID_HOVER_EVENTS_def)
    qed
    then show "\<exists>hv. Some hoverEvent = Some hv \<and> asHoverEvent hv \<noteq> None" by simp
  qed
next
  case (6 hoverEvent path)
  show ?case
  proof (intro impI)
    assume ok: "assertIsShowTextHoverEvent hoverEvent path = Inr ()"
      and a: "get hoverEvent ''action'' = Some (JStr ''show_text'')"
    have some: "\<not> (\<not> has hoverEvent ''contents'' \<and> \<not> has hoverEvent ''value'')"
      using ok by (auto simp: assertIsShowTextHoverEvent.simps [of hoverEvent path] split: if_splits)
    define v where "v = (if has hoverEvent ''contents'' then get hoverEvent ''contents''
                         else get hoverEvent ''value'')"
    have unf: "asHoverEvent hoverEvent =
        (case v of None \<Rightarrow> Some (ShowText None None)
         | Some x \<Rightarrow> map_option
                 (\<lambda>t. if has hoverEvent ''contents'' then ShowText (Some t) None
                      else ShowText None (Some t))
                 (asTextContents x))"
      using a by (simp add: asHoverEvent.simps [of hoverEvent] v_def)
    show "asHoverEvent hoverEvent \<noteq> None"
    proof (cases v)
      case None
      then show ?thesis by (simp add: unf)
    next
      case (Some x)
      have "asTextContents x \<noteq> None"
      proof (cases x)
        case JNull
        with ok some Some have "assertIsComponent JNull (path @ [''contents'']) = Inr ()"
          by (simp add: assertIsShowTextHoverEvent.simps [of hoverEvent path] v_def)
        then show ?thesis
          by (simp add: assertIsComponent.simps [of JNull] split: if_splits)
      next
        case (JBool b)
        with ok some Some have "assertIsComponent (JBool b) (path @ [''contents'']) = Inr ()"
          by (simp add: assertIsShowTextHoverEvent.simps [of hoverEvent path] v_def)
        then show ?thesis
          by (simp add: assertIsComponent.simps [of "JBool b"] split: if_splits)
      next
        case (JNum n)
        with ok some Some have "assertIsComponent (JNum n) (path @ [''contents'']) = Inr ()"
          by (simp add: assertIsShowTextHoverEvent.simps [of hoverEvent path] v_def)
        then show ?thesis
          by (simp add: assertIsComponent.simps [of "JNum n"] split: if_splits)
      next
        case (JStr s)
        then show ?thesis by simp
      next
        case (JArr xs)
        with ok some Some have "assertEach xs (path @ [''contents'']) 0 = Inr ()"
          by (simp add: assertIsShowTextHoverEvent.simps [of hoverEvent path] v_def)
        with "6.IH"(4) [OF some Some [unfolded v_def] JArr] JArr show ?thesis by simp
      next
        case (JObj kvs)
        with ok some Some have "assertIsComponent (JObj kvs) (path @ [''contents'']) = Inr ()"
          by (simp add: assertIsShowTextHoverEvent.simps [of hoverEvent path] v_def)
        with "6.IH"(5) [OF some Some [unfolded v_def] JObj] JObj show ?thesis by simp
      qed
      with Some show ?thesis by (simp add: unf)
    qed
  qed
qed

lemma asComponent_text:
  assumes "asComponent v = Some c"
  shows "asStringField (get v ''text'') = Some (componentText c)"
proof -
  from assms have "\<not> (\<not> truthy v \<or> typeof v \<noteq> ''object'')"
    by (auto simp: asComponent.simps [of v] split: if_splits)
  with assms show ?thesis
    by (auto simp: asComponent.simps [of v] buildComponent_def Option.bind_eq_Some_conv)
qed

lemma trap_valid: "assertIsComponent trapValue [] = Inr ()"
  by (simp add: trapValue_def validate_eval)

lemma trap_view: "asComponent trapValue = Some trapComponent"
  by (simp add: trapValue_def trapComponent_def asComponent.simps asHoverEvent.simps
      buildComponent_def asStringField_def asBoolField_def)

lemma trap_try:
  "formatComponentTry emptyTable trapComponent
     = (Inl (TypeError ''Cannot convert object to primitive value''), [])"
  by (simp add: trapComponent_def render_eval formatShowItem_def truthyProp_def getProp_def
      linkifyText_def linkifyFrom.simps urlAt_def startsWith_def)

lemma ex_SomeE: "\<exists>c. Some a = Some c \<and> P c \<Longrightarrow> P a"
  by auto

text \<open>
  C1: a value that has passed validation is a component as the renderer reads it, and
  \<^verbatim>\<open>formatComponent\<close> returns a node for it: when the \<^verbatim>\<open>try\<close> block ends, a span whose text
  content is at most 4096 characters long; when the block throws, which a validated value can
  bring about, the text node of the first 4096 characters of the value's own \<^verbatim>\<open>text\<close>
  property, or of the empty string, after logging the error. Nothing is raised: the
  \<^verbatim>\<open>catch\<close> block reads one property of an object and builds a text node.
\<close>

theorem C1_render_never_raises:
  "assertIsComponent v [] = Inr () \<Longrightarrow>
     \<exists>c. asComponent v = Some c
        \<and> asStringField (get v ''text'') = Some (componentText c)
        \<and> (case formatComponentTry table c of
              (Inr r, l) \<Rightarrow>
                isSpan (fst (formatComponent table c))
                \<and> length (textContent (fst (formatComponent table c))) \<le> MAX_CHAT_LENGTH
            | (Inl e, l) \<Rightarrow>
                formatComponent table c =
                  (Text (take MAX_CHAT_LENGTH
                           (case componentText c of None \<Rightarrow> [] | Some s \<Rightarrow> s)),
                   l @ [Err ''Error formatting component:'' e]))"
proof -
  assume valid: "assertIsComponent v [] = Inr ()"
  with validated_typed(1) [of v "[]"] obtain c where c: "asComponent v = Some c" by auto
  obtain res l where t: "formatComponentTry table c = (res, l)"
    by (cases "formatComponentTry table c") auto
  have body: "case formatComponentTry table c of
              (Inr r, l) \<Rightarrow>
                isSpan (fst (formatComponent table c))
                \<and> length (textContent (fst (formatComponent table c))) \<le> MAX_CHAT_LENGTH
            | (Inl e, l) \<Rightarrow>
                formatComponent table c =
                  (Text (take MAX_CHAT_LENGTH
                           (case componentText c of None \<Rightarrow> [] | Some s \<Rightarrow> s)),
                   l @ [Err ''Error formatting component:'' e])"
  proof (cases res)
    case (Inl e)
    have "formatComponent table c = finish (componentText c) (Inl e, l)"
      unfolding formatComponent_finish t Inl ..
    then show ?thesis
      unfolding t Inl by (simp add: finish_def)
  next
    case (Inr r)
    with t have tr: "formatComponentTry table c = (Inr r, l)" by simp
    note sp = formatComponentTry_isSpan [OF tr]
    have fin: "formatComponent table c = finish (componentText c) (Inr r, l)"
      unfolding formatComponent_finish tr ..
    have "isSpan (fst (formatComponent table c))
        \<and> length (textContent (fst (formatComponent table c))) \<le> MAX_CHAT_LENGTH"
    proof (cases "MAX_CHAT_LENGTH < length (textContent r)")
      case True
      then have "textContent r \<noteq> []" by auto
      with True have "fst (formatComponent table c)
          = setTextContent (take MAX_CHAT_LENGTH (textContent r)) r"
        unfolding fin by (simp add: finish_def)
      moreover have "isSpan (setTextContent (take MAX_CHAT_LENGTH (textContent r)) r)"
        using sp by (cases r) simp_all
      ultimately show ?thesis
        using textContent_setTextContent [OF sp, of "take MAX_CHAT_LENGTH (textContent r)"]
        by simp
    next
      case False
      then have "fst (formatComponent table c) = r"
        unfolding fin by (simp add: finish_def)
      with False sp show ?thesis by simp
    qed
    then show ?thesis
      unfolding tr by simp
  qed
  show ?thesis
  proof (intro exI [of _ c] conjI)
    show "asComponent v = Some c" by (rule c)
    show "asStringField (get v ''text'') = Some (componentText c)"
      by (rule asComponent_text [OF c])
    show "case formatComponentTry table c of
              (Inr r, l) \<Rightarrow>
                isSpan (fst (formatComponent table c))
                \<and> length (textContent (fst (formatComponent table c))) \<le> MAX_CHAT_LENGTH
            | (Inl e, l) \<Rightarrow>
                formatComponent table c =
                  (Text (take MAX_CHAT_LENGTH
                           (case componentText c of None \<Rightarrow> [] | Some s \<Rightarrow> s)),
                   l @ [Err ''Error formatting component:'' e])"
      by (rule body)
  qed
qed

theorem C1_render_never_raises_witness:
  "assertIsComponent trapValue [] = Inr ()
   \<and> asComponent trapValue = Some trapComponent
   \<and> formatComponentTry emptyTable trapComponent
       = (Inl (TypeError ''Cannot convert object to primitive value''), [])
   \<and> formatComponent emptyTable trapComponent
       = (Text ''hello'',
          [Err ''Error formatting component:''
             (TypeError ''Cannot convert object to primitive value'')])"
proof -
  have "\<exists>c. Some trapComponent = Some c
        \<and> asStringField (get trapValue ''text'') = Some (componentText c)
        \<and> (case formatComponentTry emptyTable c of
              (Inr r, l) \<Rightarrow>
                isSpan (fst (formatComponent emptyTable c))
                \<and> length (textContent (fst (formatComponent emptyTable c))) \<le> MAX_CHAT_LENGTH
            | (Inl e, l) \<Rightarrow>
                formatComponent emptyTable c =
                  (Text (take MAX_CHAT_LENGTH
                           (case componentText c of None \<Rightarrow> [] | Some s \<Rightarrow> s)),
                   l @ [Err ''Error formatting component:'' e]))"
    using C1_render_never_raises [OF trap_valid, of emptyTable] unfolding trap_view .
  then have "asStringField (get trapValue ''text'') = Some (componentText trapComponent)
        \<and> (case formatComponentTry emptyTable trapComponent of
              (Inr r, l) \<Rightarrow>
                isSpan (fst (formatComponent emptyTable trapComponent))
                \<and> length (textContent (fst (formatComponent emptyTable trapComponent)))
                    \<le> MAX_CHAT_LENGTH
            | (Inl e, l) \<Rightarrow>
                formatComponent emptyTable trapComponent =
                  (Text (take MAX_CHAT_LENGTH
                           (case componentText trapComponent of None \<Rightarrow> [] | Some s \<Rightarrow> s)),
                   l @ [Err ''Error formatting component:'' e]))"
    by (rule ex_SomeE)
  then have "formatComponent emptyTable trapComponent =
                  (Text (take MAX_CHAT_LENGTH
                           (case componentText trapComponent of None \<Rightarrow> [] | Some s \<Rightarrow> s)),
                   [] @ [Err ''Error formatting component:''
                           (TypeError ''Cannot convert object to primitive value'')])"
    unfolding trap_try by simp
  moreover have "componentText trapComponent = Some ''hello''" by (simp add: trapComponent_def)
  ultimately have "formatComponent emptyTable trapComponent
       = (Text ''hello'',
          [Err ''Error formatting component:''
             (TypeError ''Cannot convert object to primitive value'')])"
    by (simp add: MAX_CHAT_LENGTH_def)
  with trap_valid trap_view trap_try show ?thesis by simp
qed

end
